theory Spec2Isabelle
  imports Complex_Main "HOL-Library.Multiset"
begin

section \<open>The reduction pipeline of \<open>ChordReducer.__call__\<close>\<close>

text \<open>
  \<open>ChordReducer.__call__\<close> builds an offset tree from the score and hands it to a
  sequence of methods, each of which mutates the tree. The offset tree itself lives in
  \<open>music21.analysis.offsetTree\<close>; for the order of the calls only the fact that every
  pass takes the tree and leaves a tree matters, so the passes are parameters here and
  the tree type is arbitrary.
\<close>

datatype pass =
    RemoveVerticalDissonances
  | FillBassGaps
  | RemoveShortTimespans
  | FillOuterMeasureGaps
  | FillInnerMeasureGaps
  | AlignHockets

record 't passes =
  removeVerticalDissonancesP :: "'t \<Rightarrow> 't"
  fillBassGapsP :: "'t \<Rightarrow> 't"
  removeShortTimespansP :: "'t \<Rightarrow> 't"
  fillOuterMeasureGapsP :: "'t \<Rightarrow> 't"
  alignHocketsP :: "'t \<Rightarrow> 't"
  fillInnerMeasureGapsP :: "'t \<Rightarrow> 't"

text \<open>
  Lines 81 to 87 of the source, statement by statement: the tree after one call is the
  tree the next call receives.
\<close>

definition callPasses :: "'t passes \<Rightarrow> 't \<Rightarrow> 't" where
  "callPasses P tree0 =
     (let tree1 = removeVerticalDissonancesP P tree0;
          tree2 = fillBassGapsP P tree1;
          tree3 = removeShortTimespansP P tree2;
          tree4 = fillBassGapsP P tree3;
          tree5 = fillOuterMeasureGapsP P tree4;
          tree6 = alignHocketsP P tree5;
          tree7 = fillInnerMeasureGapsP P tree6
      in tree7)"

text \<open>Which method a pass name stands for.\<close>

fun runPass :: "'t passes \<Rightarrow> pass \<Rightarrow> 't \<Rightarrow> 't" where
  "runPass P RemoveVerticalDissonances = removeVerticalDissonancesP P"
| "runPass P FillBassGaps = fillBassGapsP P"
| "runPass P RemoveShortTimespans = removeShortTimespansP P"
| "runPass P FillOuterMeasureGaps = fillOuterMeasureGapsP P"
| "runPass P FillInnerMeasureGaps = fillInnerMeasureGapsP P"
| "runPass P AlignHockets = alignHocketsP P"

text \<open>
  Passes that do nothing but write their own name at the end of a log: run through
  \<open>callPasses\<close> they record which methods are called, and in which order.
\<close>

definition logPasses :: "(pass list) passes" where
  "logPasses =
     \<lparr> removeVerticalDissonancesP = (\<lambda>log. log @ [RemoveVerticalDissonances]),
       fillBassGapsP = (\<lambda>log. log @ [FillBassGaps]),
       removeShortTimespansP = (\<lambda>log. log @ [RemoveShortTimespans]),
       fillOuterMeasureGapsP = (\<lambda>log. log @ [FillOuterMeasureGaps]),
       alignHocketsP = (\<lambda>log. log @ [AlignHockets]),
       fillInnerMeasureGapsP = (\<lambda>log. log @ [FillInnerMeasureGaps]) \<rparr>"

section \<open>Streams and their elements\<close>

text \<open>
  The stream classes of \<open>music21.stream\<close>, \<open>music21.note\<close> and \<open>music21.chord\<close> are not
  part of the file under verification; the methods below use them through a handful of
  attributes. Elements are objects shared between streams and mutated in place, so they
  live in a store: an element is an address, a stream is an identifier, and the store
  maps addresses to the elements' current attributes and stream identifiers to the
  sequence of addresses the stream holds.

  Pitches are opaque codes (the pitch model belongs to \<open>music21.pitch\<close>); all that is used
  of a pitch is equality and its pitch class, the code modulo 12. Quarter lengths,
  offsets and weights are Python floats in the source and exact rationals here.
\<close>

datatype tieType = TieStart

datatype kind = Note | Chord | Rest | Other

text \<open>
  A component is the one note of a \<open>Note\<close> or one of the notes of a \<open>Chord\<close>. Its
  accidental is absent (\<open>None\<close>) or present with a display status, itself \<open>None\<close>,
  \<open>True\<close> or \<open>False\<close>.
\<close>

record component =
  cpitch :: int
  ctie :: "tieType option"
  accidental :: "bool option option"

record element =
  kind :: kind
  components :: "component list"
  offset :: rat
  quarterLength :: rat
  beatStrength :: rat
  consonant :: bool
  tie :: "tieType option"

type_synonym heap = "nat \<Rightarrow> element"

record store =
  elems :: heap
  streams :: "nat \<Rightarrow> nat list"
  isFlat :: "nat \<Rightarrow> bool"
  nextElem :: nat
  nextStream :: nat

definition pitches :: "element \<Rightarrow> int list" where
  "pitches e = map cpitch (components e)"

text \<open>
  Modelled from the spec: the attribute \<open>tie\<close> of \<open>music21.chord.Chord\<close> is missing. A note
  or a rest has a tie of its own, the field \<open>tie\<close>. A chord has none: reading \<open>c.tie\<close>
  gives the first tie found among the chord's component notes, and \<open>c.tie = v\<close> gives the
  tie \<open>v\<close> to every component note.
\<close>

definition getTie :: "element \<Rightarrow> tieType option" where
  "getTie e =
     (if kind e = Chord then
        (case filter (\<lambda>n. ctie n \<noteq> None) (components e) of
           [] \<Rightarrow> None
         | n # ns \<Rightarrow> ctie n)
      else tie e)"

definition setTie :: "element \<Rightarrow> tieType option \<Rightarrow> element" where
  "setTie e v =
     (if kind e = Chord then e\<lparr>components := map (\<lambda>n. n\<lparr>ctie := v\<rparr>) (components e)\<rparr>
      else e\<lparr>tie := v\<rparr>)"

subsection \<open>\<open>ChordReducer._applyTies\<close>\<close>

text \<open>
  \<open>_iterateElementsPairwise\<close> walks the flattened stream, skips what is neither chord,
  note nor rest, and keeps a buffer: each element is appended, and when the buffer holds
  two elements the pair is yielded and the older element dropped. \<open>_applyTies\<close> runs its
  body on every pair as it is yielded. The two are written as one loop over the
  stream's addresses, with the buffer and the heap as its state.
\<close>

definition isPrototype :: "element \<Rightarrow> bool" where
  "isPrototype e = (kind e = Chord \<or> kind e = Note \<or> kind e = Rest)"

text \<open>
  The body of the loop of \<open>_applyTies\<close>. A \<open>Note\<close> has one component, so \<open>one.pitch ==
  two.pitch\<close> compares the one-element pitch lists. \<open>one.tie = tie.Tie('start')\<close> is
  \<open>setTie\<close>.
\<close>

definition applyTiesBody :: "heap \<Rightarrow> nat \<Rightarrow> nat \<Rightarrow> heap" where
  "applyTiesBody h a b =
     (let one = h a; two = h b in
      if kind one = Note \<and> kind two = Note then
        (if pitches one = pitches two then h(a := setTie one (Some TieStart)) else h)
      else if kind one = Chord \<and> kind two = Chord then
        (if pitches one = pitches two then h(a := setTie one (Some TieStart)) else h)
      else h)"

fun applyTiesLoop :: "heap \<Rightarrow> nat list \<Rightarrow> nat list \<Rightarrow> heap" where
  "applyTiesLoop h elementBuffer [] = h"
| "applyTiesLoop h elementBuffer (a # rest) =
     (if \<not> isPrototype (h a) then applyTiesLoop h elementBuffer rest
      else
        let buf = elementBuffer @ [a] in
        if length buf = 2
        then applyTiesLoop (applyTiesBody h (buf ! 0) (buf ! 1)) (tl buf) rest
        else applyTiesLoop h buf rest)"

definition applyTies :: "heap \<Rightarrow> nat list \<Rightarrow> heap" where
  "applyTies h part = applyTiesLoop h [] part"

text \<open>The elements the pairs are drawn from: the chords, notes and rests of the part.\<close>

definition prototypes :: "heap \<Rightarrow> nat list \<Rightarrow> nat list" where
  "prototypes h part = filter (\<lambda>a. isPrototype (h a)) part"

text \<open>The condition under which the body sets a tie.\<close>

definition tieGuard :: "element \<Rightarrow> element \<Rightarrow> bool" where
  "tieGuard one two =
     ((kind one = Note \<and> kind two = Note \<or> kind one = Chord \<and> kind two = Chord)
      \<and> pitches one = pitches two)"

text \<open>
  The earlier elements of the adjacent pairs of a sequence that satisfy the condition.
\<close>

fun tiedOnes :: "heap \<Rightarrow> nat list \<Rightarrow> nat list" where
  "tiedOnes h (a # b # rest) =
     (if tieGuard (h a) (h b) then a # tiedOnes h (b # rest) else tiedOnes h (b # rest))"
| "tiedOnes h [a] = []"
| "tiedOnes h [] = []"

section \<open>The chord collapser\<close>

datatype pyError = TypeError | ValueError

type_synonym pcs = "int list"

subsection \<open>Weight strategies\<close>

text \<open>
  A weight strategy is a method of the reducer: it reads the chord and the two attributes
  \<open>positionInMeasure\<close> and \<open>numberOfElementsInMeasure\<close> that \<open>computeMeasureChordWeights\<close>
  sets on the reducer before each call. Here the two attributes are arguments. The
  answer of \<open>chordObject.isConsonant()\<close> is the field \<open>consonant\<close>.
\<close>

type_synonym weightAlgorithm = "nat \<Rightarrow> nat \<Rightarrow> element \<Rightarrow> rat"

definition quarterLengthOnly :: weightAlgorithm where
  "quarterLengthOnly positionInMeasure numberOfElementsInMeasure chordObject =
     quarterLength chordObject"

definition quarterLengthBeatStrength :: weightAlgorithm where
  "quarterLengthBeatStrength positionInMeasure numberOfElementsInMeasure chordObject =
     quarterLength chordObject * beatStrength chordObject"

definition quarterLengthBeatStrengthMeasurePosition :: weightAlgorithm where
  "quarterLengthBeatStrengthMeasurePosition positionInMeasure numberOfElementsInMeasure chordObject =
     (if int positionInMeasure = int numberOfElementsInMeasure - 1
      then quarterLength chordObject
      else quarterLengthBeatStrength positionInMeasure numberOfElementsInMeasure chordObject)"

definition qlbsmpConsonance :: weightAlgorithm where
  "qlbsmpConsonance positionInMeasure numberOfElementsInMeasure chordObject =
     (let consonanceScore = (if consonant chordObject then 1 else 1 / 10);
          weight =
            (if int positionInMeasure = int numberOfElementsInMeasure - 1
             then quarterLength chordObject
             else quarterLengthBeatStrengthMeasurePosition positionInMeasure
                    numberOfElementsInMeasure chordObject)
      in weight * consonanceScore)"

subsection \<open>\<open>computeMeasureChordWeights\<close>\<close>

text \<open>
  \<open>Stream.notes\<close> keeps the notes and chords of a stream (rests and everything else are
  left out).
\<close>

definition notesOf :: "heap \<Rightarrow> nat list \<Rightarrow> nat list" where
  "notesOf h es = filter (\<lambda>a. kind (h a) = Note \<or> kind (h a) = Chord) es"

text \<open>
  The key under which an element is counted. For a note the source evaluates
  \<open>tuple(c.pitch.pitchClass)\<close>, the tuple of an integer, which raises \<open>TypeError\<close>. For a
  chord it is \<open>tuple(set(...))\<close> of the pitch classes; the tuple lists the set in the set's
  iteration order, which is represented by the sorted list without duplicates, so that
  equal sets give equal keys.
\<close>

definition pcsOf :: "element \<Rightarrow> pyError + pcs" where
  "pcsOf c =
     (if kind c = Note then Inl TypeError
      else Inr (sort (remdups (map (\<lambda>x. cpitch x mod 12) (components c)))))"

text \<open>
  The dictionary \<open>presentPCs\<close> as an association list in order of insertion; \<open>dictAdd\<close> is
  \<open>if p not in presentPCs: presentPCs[p] = 0.0\<close> followed by \<open>presentPCs[p] += w\<close>.
\<close>

fun dictAdd :: "(pcs \<times> rat) list \<Rightarrow> pcs \<Rightarrow> rat \<Rightarrow> (pcs \<times> rat) list" where
  "dictAdd [] p w = [(p, 0 + w)]"
| "dictAdd ((k, v) # d) p w = (if k = p then (k, v + w) # d else (k, v) # dictAdd d p w)"

fun computeLoop ::
  "weightAlgorithm \<Rightarrow> nat \<Rightarrow> heap \<Rightarrow> nat \<Rightarrow> nat list \<Rightarrow> (pcs \<times> rat) list
   \<Rightarrow> pyError + (pcs \<times> rat) list" where
  "computeLoop w n h i [] presentPCs = Inr presentPCs"
| "computeLoop w n h i (c # rest) presentPCs =
     (case pcsOf (h c) of
        Inl e \<Rightarrow> Inl e
      | Inr p \<Rightarrow> computeLoop w n h (Suc i) rest (dictAdd presentPCs p (w i n (h c))))"

text \<open>\<open>if weightAlgorithm is None: weightAlgorithm = self.quarterLengthOnly\<close>\<close>

definition weightOf :: "weightAlgorithm option \<Rightarrow> weightAlgorithm" where
  "weightOf w = (case w of None \<Rightarrow> quarterLengthOnly | Some f \<Rightarrow> f)"

definition computeMeasureChordWeights ::
  "heap \<Rightarrow> nat list \<Rightarrow> weightAlgorithm option \<Rightarrow> pyError + (pcs \<times> rat) list" where
  "computeMeasureChordWeights h measureObject weightAlgorithm =
     computeLoop (weightOf weightAlgorithm) (length measureObject) h 0 measureObject []"

text \<open>
  Reading the dictionary. Every key looked up below comes from the dictionary's own
  keys, so the default is never returned.
\<close>

definition dictGet :: "(pcs \<times> rat) list \<Rightarrow> pcs \<Rightarrow> rat" where
  "dictGet d k = (case map_of d k of Some v \<Rightarrow> v | None \<Rightarrow> 0)"

text \<open>
  Iterating over a Python 2 dictionary yields its keys in the order of the hash table's
  slots, which is neither the order of insertion nor the order of the keys. The table is
  a parameter: \<open>slot\<close> gives each key its place, and keys are listed by place, keys of the
  same place in order of insertion. The constant \<open>slot\<close> gives the order of insertion.
\<close>

definition dictKeys :: "(pcs \<Rightarrow> nat) \<Rightarrow> (pcs \<times> rat) list \<Rightarrow> pcs list" where
  "dictKeys slot d = sort_key slot (map fst d)"

text \<open>
  \<open>sorted(chordWeights, key=chordWeights.get, reverse=True)\<close>: Python's sort is stable,
  also with \<open>reverse=True\<close>, so keys of equal weight stay in the order in which the
  dictionary yields them.
\<close>

definition sortedChordWeights :: "(pcs \<Rightarrow> nat) \<Rightarrow> (pcs \<times> rat) list \<Rightarrow> pcs list" where
  "sortedChordWeights slot chordWeights =
     sort_key (\<lambda>k. - dictGet chordWeights k) (dictKeys slot chordWeights)"

text \<open>The slice \<open>xs[:n]\<close>; a negative \<open>n\<close> counts from the end.\<close>

definition pySliceTo :: "'a list \<Rightarrow> int \<Rightarrow> 'a list" where
  "pySliceTo xs n = (if 0 \<le> n then take (nat n) xs else take (length xs - nat (- n)) xs)"

definition maxNChords :: "(pcs \<Rightarrow> nat) \<Rightarrow> (pcs \<times> rat) list \<Rightarrow> int \<Rightarrow> pcs list" where
  "maxNChords slot chordWeights numChords0 =
     (let numChords =
            (if numChords0 > int (length chordWeights) then int (length chordWeights)
             else numChords0)
      in pySliceTo (sortedChordWeights slot chordWeights) numChords)"

text \<open>The loop that fills \<open>trimmedMaxChords\<close> stops at the first weight below the bound.\<close>

definition trimmedMaxChords :: "(pcs \<times> rat) list \<Rightarrow> pcs list \<Rightarrow> rat \<Rightarrow> pcs list" where
  "trimmedMaxChords chordWeights maxN trimBelow =
     (let maxChordWeight = dictGet chordWeights (hd maxN)
      in takeWhile (\<lambda>pcTuples. dictGet chordWeights pcTuples \<ge> maxChordWeight * trimBelow) maxN)"

subsection \<open>The sweep over the measure\<close>

text \<open>
  The loop \<open>for c in measureObject\<close> runs over the elements the stream holds when the loop
  starts (the docstring's example, in which the element after a removed one is still
  visited, shows it), while \<open>measureObject.remove(c)\<close> takes elements out of the stream.
\<close>

record sweepState =
  heapS :: heap
  streamS :: "nat list"
  currentGreedyChord :: "nat option"
  currentGreedyChordPCs :: "pcs option"
  currentGreedyChordNewLength :: rat

text \<open>
  \<open>for n in c: n.tie = None\<close>, which takes the ties from the component notes of the chord
  and with them the tie that is read from the chord, and the display status of each
  accidental reset.
\<close>

definition clearTies :: "element \<Rightarrow> element" where
  "clearTies c =
     c\<lparr>components :=
         map (\<lambda>n. n\<lparr>ctie := None,
                     accidental := (case accidental n of None \<Rightarrow> None | Some _ \<Rightarrow> Some None)\<rparr>)
           (components c)\<rparr>"

text \<open>
  The branch that keeps the chord \<open>c\<close>, in two parts: first the \<open>if\<close>/\<open>elif\<close> that either
  moves a leading chord to the start of the measure or gives the chord kept before its
  length, then the statements that make \<open>c\<close> the current chord.
\<close>

definition closePrevious :: "sweepState \<Rightarrow> nat \<Rightarrow> sweepState" where
  "closePrevious st c =
     (if currentGreedyChord st = None \<and> offset (heapS st c) \<noteq> 0 then
        st\<lparr>heapS := (heapS st)(c := (heapS st c)\<lparr>offset := 0\<rparr>),
           currentGreedyChordNewLength := offset (heapS st c)\<rparr>
      else
        (case currentGreedyChord st of
           None \<Rightarrow> st
         | Some g \<Rightarrow>
             st\<lparr>heapS := (heapS st)
                   (g := (heapS st g)\<lparr>quarterLength := currentGreedyChordNewLength st\<rparr>),
                currentGreedyChordNewLength := 0\<rparr>))"

definition keepChord :: "sweepState \<Rightarrow> nat \<Rightarrow> pcs \<Rightarrow> sweepState" where
  "keepChord st c p =
     (let st1 = closePrevious st c;
          h2 = (heapS st1)(c := clearTies (heapS st1 c))
      in st1\<lparr>heapS := h2,
             currentGreedyChord := Some c,
             currentGreedyChordPCs := Some p,
             currentGreedyChordNewLength := currentGreedyChordNewLength st1 + quarterLength (h2 c)\<rparr>)"

text \<open>The \<open>else\<close> branch: the chord's length is absorbed and the chord removed.\<close>

definition dropChord :: "sweepState \<Rightarrow> nat \<Rightarrow> sweepState" where
  "dropChord st c =
     st\<lparr>currentGreedyChordNewLength := currentGreedyChordNewLength st + quarterLength (heapS st c),
        streamS := remove1 c (streamS st)\<rparr>"

definition sweepStep :: "pcs list \<Rightarrow> sweepState \<Rightarrow> nat \<Rightarrow> pyError + sweepState" where
  "sweepStep trimmed st c =
     (case pcsOf (heapS st c) of
        Inl e \<Rightarrow> Inl e
      | Inr p \<Rightarrow>
          if p \<in> set trimmed \<and> Some p \<noteq> currentGreedyChordPCs st
          then Inr (keepChord st c p)
          else Inr (dropChord st c))"

fun sweepLoop :: "pcs list \<Rightarrow> sweepState \<Rightarrow> nat list \<Rightarrow> pyError + sweepState" where
  "sweepLoop trimmed st [] = Inr st"
| "sweepLoop trimmed st (c # rest) =
     (case sweepStep trimmed st c of
        Inl e \<Rightarrow> Inl e
      | Inr st' \<Rightarrow> sweepLoop trimmed st' rest)"

text \<open>The sweep with the statement that follows it: the last kept chord gets its length.\<close>

definition sweep :: "pcs list \<Rightarrow> heap \<Rightarrow> nat list \<Rightarrow> pyError + (heap \<times> nat list)" where
  "sweep trimmed h measureObject =
     (case sweepLoop trimmed
             \<lparr>heapS = h, streamS = measureObject, currentGreedyChord = None,
              currentGreedyChordPCs = None, currentGreedyChordNewLength = 0\<rparr>
             measureObject of
        Inl e \<Rightarrow> Inl e
      | Inr st \<Rightarrow>
          (case currentGreedyChord st of
             None \<Rightarrow> Inr (heapS st, streamS st)
           | Some g \<Rightarrow>
               Inr ((heapS st)(g := (heapS st g)\<lparr>quarterLength := currentGreedyChordNewLength st\<rparr>),
                    streamS st)))"

subsection \<open>Evening the chord lengths\<close>

text \<open>
  \<open>int(x)\<close> truncates towards zero; \<open>round(x, 3)\<close> rounds to three decimals, a half away
  from zero.
\<close>

definition pyInt :: "rat \<Rightarrow> int" where
  "pyInt x = (if 0 \<le> x then \<lfloor>x\<rfloor> else \<lceil>x\<rceil>)"

definition pyRound3 :: "rat \<Rightarrow> rat" where
  "pyRound3 x =
     (if 0 \<le> x then of_int \<lfloor>x * 1000 + 1 / 2\<rfloor> / 1000
      else - (of_int \<lfloor>- x * 1000 + 1 / 2\<rfloor> / 1000))"

definition evenStep :: "nat list \<Rightarrow> heap \<Rightarrow> nat \<Rightarrow> heap" where
  "evenStep measureObject h i =
     (let c = measureObject ! i;
          cOffsetCurrent = offset (h c);
          cOffsetSyncop = cOffsetCurrent - of_int (pyInt cOffsetCurrent)
      in if pyRound3 cOffsetSyncop \<in> set [1 / 4, 1 / 8, 333 / 1000, 63 / 1000, 62 / 1000] then
           (let lastC = measureObject ! (i - 1);
                h1 = h(lastC := (h lastC)\<lparr>quarterLength := quarterLength (h lastC) - cOffsetSyncop\<rparr>);
                h2 = h1(c := (h1 c)\<lparr>offset := of_int (pyInt cOffsetCurrent)\<rparr>);
                h3 = h2(c := (h2 c)\<lparr>quarterLength := quarterLength (h2 c) + cOffsetSyncop\<rparr>)
            in h3)
         else h)"

definition evenChordLengths :: "heap \<Rightarrow> nat list \<Rightarrow> heap" where
  "evenChordLengths h measureObject = foldl (evenStep measureObject) h [1..<length measureObject]"

subsection \<open>\<open>reduceMeasureToNChords\<close>\<close>

text \<open>
  \<open>Stream.flat\<close> and \<open>Stream.notes\<close> return a new stream that holds the same element
  objects. A stream is represented by the sequence of its leaf elements, so \<open>flat\<close> keeps
  the sequence. \<open>Stream.duration.quarterLength\<close> is the latest end of an element of the
  stream, zero for a stream without elements.
\<close>

definition flat :: "store \<Rightarrow> nat \<Rightarrow> store \<times> nat" where
  "flat s sid =
     (s\<lparr>streams := (streams s)(nextStream s := streams s sid),
        isFlat := (isFlat s)(nextStream s := True),
        nextStream := Suc (nextStream s)\<rparr>, nextStream s)"

definition notesStream :: "store \<Rightarrow> nat \<Rightarrow> store \<times> nat" where
  "notesStream s sid =
     (s\<lparr>streams := (streams s)(nextStream s := notesOf (elems s) (streams s sid)),
        isFlat := (isFlat s)(nextStream s := isFlat s sid),
        nextStream := Suc (nextStream s)\<rparr>, nextStream s)"

definition highestTime :: "heap \<Rightarrow> nat list \<Rightarrow> rat" where
  "highestTime h es = fold (\<lambda>a m. max m (offset (h a) + quarterLength (h a))) es 0"

definition newRest :: "rat \<Rightarrow> element" where
  "newRest ql =
     \<lparr>kind = Rest, components = [], offset = 0, quarterLength = ql, beatStrength = 0,
      consonant = False, tie = None\<rparr>"

text \<open>Lines 474 to 477: the stream the method works on and returns.\<close>

definition measureNotes :: "store \<Rightarrow> nat \<Rightarrow> store \<times> nat" where
  "measureNotes s0 measureObject0 =
     (if \<not> isFlat s0 measureObject0
      then (let (sf, f) = flat s0 measureObject0 in notesStream sf f)
      else notesStream s0 measureObject0)"

text \<open>
  The branch taken when no pitch-class set is selected: a new rest gets the duration of
  \<open>measureObject\<close>, every element is removed from \<open>measureObject\<close>, and the rest is inserted
  at offset 0.
\<close>

definition replaceByRest :: "store \<Rightarrow> nat \<Rightarrow> store" where
  "replaceByRest s measureObject =
     (let r = nextElem s;
          ql = highestTime (elems s) (streams s measureObject)
      in s\<lparr>elems := (elems s)(r := newRest ql),
            streams := (streams s)(measureObject := [r]),
            nextElem := Suc r\<rparr>)"

text \<open>Lines 478 to 543, on the stream of notes.\<close>

definition reduceNotes ::
  "(pcs \<Rightarrow> nat) \<Rightarrow> store \<Rightarrow> nat \<Rightarrow> int \<Rightarrow> weightAlgorithm option \<Rightarrow> rat
   \<Rightarrow> pyError + (store \<times> nat)" where
  "reduceNotes slot s measureObject numChords weightAlgorithm trimBelow =
     (case computeMeasureChordWeights (elems s) (streams s measureObject) weightAlgorithm of
        Inl e \<Rightarrow> Inl e
      | Inr chordWeights \<Rightarrow>
          (let maxN = maxNChords slot chordWeights numChords in
           if length maxN = 0 then Inr (replaceByRest s measureObject, measureObject)
           else
             (case sweep (trimmedMaxChords chordWeights maxN trimBelow) (elems s)
                     (streams s measureObject) of
                Inl e \<Rightarrow> Inl e
              | Inr (h, kept) \<Rightarrow>
                  Inr (s\<lparr>elems := evenChordLengths h kept,
                         streams := (streams s)(measureObject := kept)\<rparr>, measureObject))))"

definition reduceMeasureToNChords ::
  "(pcs \<Rightarrow> nat) \<Rightarrow> store \<Rightarrow> nat \<Rightarrow> int \<Rightarrow> weightAlgorithm option \<Rightarrow> rat
   \<Rightarrow> pyError + (store \<times> nat)" where
  "reduceMeasureToNChords slot s0 measureObject0 numChords weightAlgorithm trimBelow =
     (let (s, measureObject) = measureNotes s0 measureObject0
      in reduceNotes slot s measureObject numChords weightAlgorithm trimBelow)"

section \<open>The offset tree and its passes\<close>

text \<open>
  The class \<open>OffsetTree\<close> with its timespans and verticalities belongs to
  \<open>music21.analysis.offsetTree\<close>, which is not part of the file under verification. What the
  passes use of it is written down here from the description of the index: a timespan is a
  record of values, the tree is the list of the timespans it holds, and a verticality is
  computed from the tree whenever it is asked for.
\<close>

record timespan =
  startOffset :: rat
  stopOffset :: rat
  tsPart :: nat
  tsPitches :: "int list"
  tsBeatStrength :: rat
  measureNumber :: int
  measureStartOffset :: rat
  measureStopOffset :: rat

type_synonym tree = "timespan list"

definition duration :: "timespan \<Rightarrow> rat" where
  "duration timespan = stopOffset timespan - startOffset timespan"

record verticality =
  vStartOffset :: rat
  startTimespans :: "timespan list"
  overlapTimespans :: "timespan list"

text \<open>
  Modelled from the spec: \<open>OffsetTree.getVerticalityAt\<close> is missing. The verticality at an
  offset holds the timespans that begin exactly there and the timespans whose interval
  contains the offset.
\<close>

definition getVerticalityAt :: "tree \<Rightarrow> rat \<Rightarrow> verticality" where
  "getVerticalityAt tree off =
     \<lparr>vStartOffset = off,
      startTimespans = filter (\<lambda>t. startOffset t = off) tree,
      overlapTimespans = filter (\<lambda>t. startOffset t < off \<and> off < stopOffset t) tree\<rparr>"

text \<open>
  Modelled from the spec: \<open>Verticality.pitchSet\<close> is missing. It is the set of the pitches
  of all timespans of the verticality, here as a sorted list without duplicates.
\<close>

definition pitchSet :: "verticality \<Rightarrow> int list" where
  "pitchSet v = sort (remdups (concat (map tsPitches (startTimespans v @ overlapTimespans v))))"

text \<open>
  Modelled from the spec: \<open>Verticality.bassTimespan\<close> is missing. It is the timespan that
  owns the lowest pitch of the verticality (the first such timespan, the ones that begin at
  the offset first), and \<open>None\<close> when the verticality has no pitch.
\<close>

definition bassTimespan :: "verticality \<Rightarrow> timespan option" where
  "bassTimespan v =
     (let cands = filter (\<lambda>t. tsPitches t \<noteq> []) (startTimespans v @ overlapTimespans v) in
      if cands = [] then None
      else Some (hd (filter (\<lambda>t. Min (set (tsPitches t)) = Min (set (pitchSet v))) cands)))"

definition bassTimespanAt :: "tree \<Rightarrow> rat \<Rightarrow> timespan option" where
  "bassTimespanAt tree off = bassTimespan (getVerticalityAt tree off)"

text \<open>
  Modelled from the spec: \<open>OffsetTree.remove\<close> is missing. It removes the timespan that is
  given and fails when the tree does not hold it; given a list it removes one after the
  other.
\<close>

definition treeRemove :: "timespan \<Rightarrow> tree \<Rightarrow> pyError + tree" where
  "treeRemove t tree = (if t \<in> set tree then Inr (remove1 t tree) else Inl ValueError)"

fun treeRemoveAll :: "timespan list \<Rightarrow> tree \<Rightarrow> pyError + tree" where
  "treeRemoveAll [] tree = Inr tree"
| "treeRemoveAll (t # ts) tree =
     (case treeRemove t tree of Inl e \<Rightarrow> Inl e | Inr tree' \<Rightarrow> treeRemoveAll ts tree')"

text \<open>
  Modelled from the spec: \<open>OffsetTree.iterateVerticalities\<close> is missing. It yields the
  verticality at the earliest start offset and then, each time it is asked for the next
  one, the verticality at the next start offset of the tree as the tree is at that moment.
\<close>

definition earliestStartOffset :: "tree \<Rightarrow> rat option" where
  "earliestStartOffset tree =
     (case map startOffset tree of [] \<Rightarrow> None | x # xs \<Rightarrow> Some (fold min xs x))"

definition getStartOffsetAfter :: "tree \<Rightarrow> rat \<Rightarrow> rat option" where
  "getStartOffsetAfter tree off =
     (case filter (\<lambda>x. off < x) (map startOffset tree) of
        [] \<Rightarrow> None
      | x # xs \<Rightarrow> Some (fold min xs x))"

subsection \<open>\<open>removeVerticalDissonances\<close>\<close>

text \<open>
  The inner loop over the timespans that begin at the verticality. \<open>min\<close> of an empty
  sequence raises \<open>ValueError\<close>.
\<close>

fun removeAbove :: "int \<Rightarrow> tree \<Rightarrow> timespan list \<Rightarrow> pyError + tree" where
  "removeAbove lowestPitch tree [] = Inr tree"
| "removeAbove lowestPitch tree (timespan # rest) =
     (if tsPitches timespan = [] then Inl ValueError
      else if Min (set (tsPitches timespan)) \<noteq> lowestPitch then
        (case treeRemove timespan tree of
           Inl e \<Rightarrow> Inl e
         | Inr tree' \<Rightarrow> removeAbove lowestPitch tree' rest)
      else removeAbove lowestPitch tree rest)"

text \<open>
  The body of the loop over the verticalities; \<open>isConsonant\<close> is the consonance judgement of
  the pitch capability, a parameter.
\<close>

definition dissonanceBody :: "(int list \<Rightarrow> bool) \<Rightarrow> tree \<Rightarrow> verticality \<Rightarrow> pyError + tree" where
  "dissonanceBody isConsonant tree v =
     (if isConsonant (pitchSet v) then Inr tree
      else if pitchSet v = [] then Inl ValueError
      else removeAbove (Min (set (pitchSet v))) tree (startTimespans v))"

text \<open>
  Each pass of the loop leaves the tree no larger, and the next start offset lies beyond
  the present one: the number of timespans that begin later decreases, so the loop ends.
\<close>

lemma filter_remove1_le: "length (filter P (remove1 x xs)) \<le> length (filter P xs)"
  by (induction xs) auto

lemma removeAbove_shrinks:
  "removeAbove low tree ts = Inr tree' \<Longrightarrow> length (filter P tree') \<le> length (filter P tree)"
proof (induction ts arbitrary: tree)
  case Nil
  then show ?case by simp
next
  case (Cons t ts)
  show ?case
  proof (cases "tsPitches t \<noteq> [] \<and> Min (set (tsPitches t)) \<noteq> low")
    case True
    with Cons.prems obtain tree1 where r: "treeRemove t tree = Inr tree1"
      and rest: "removeAbove low tree1 ts = Inr tree'"
      by (auto split: sum.splits)
    from r have "tree1 = remove1 t tree" by (auto simp add: treeRemove_def split: if_splits)
    then have "length (filter P tree1) \<le> length (filter P tree)" by (simp add: filter_remove1_le)
    with Cons.IH [OF rest] show ?thesis by simp
  next
    case False
    with Cons.prems have "removeAbove low tree ts = Inr tree'" by (auto split: if_splits)
    from Cons.IH [OF this] show ?thesis .
  qed
qed

lemma dissonanceBody_shrinks:
  "dissonanceBody c tree v = Inr tree' \<Longrightarrow> length (filter P tree') \<le> length (filter P tree)"
  by (auto simp add: dissonanceBody_def split: if_splits dest: removeAbove_shrinks)

lemma fold_min_in: "fold min xs (x::rat) \<in> set (x # xs)"
proof (induction xs arbitrary: x)
  case Nil
  then show ?case by simp
next
  case (Cons y ys)
  from Cons.IH [of "min y x"] show ?case by (auto simp add: min_def split: if_splits)
qed

lemma getStartOffsetAfter_Some:
  assumes "getStartOffsetAfter tree off = Some off'"
  shows "off < off'" and "off' \<in> startOffset ` set tree"
proof -
  from assms obtain x xs where f: "filter (\<lambda>x. off < x) (map startOffset tree) = x # xs"
    and o: "off' = fold min xs x"
    by (auto simp add: getStartOffsetAfter_def split: list.splits)
  from fold_min_in [of xs x] o f have "off' \<in> set (filter (\<lambda>x. off < x) (map startOffset tree))"
    by simp
  then show "off < off'" and "off' \<in> startOffset ` set tree" by auto
qed

lemma loop_decreases:
  assumes b: "dissonanceBody c tree v = Inr tree'"
    and n: "getStartOffsetAfter tree' off = Some off'"
  shows "length (filter (\<lambda>t. off' < startOffset t) tree') < length (filter (\<lambda>t. off < startOffset t) tree)"
proof -
  from getStartOffsetAfter_Some [OF n] obtain t where t: "t \<in> set tree'" "startOffset t = off'"
    and lt: "off < off'" by auto
  have "filter (\<lambda>t. off' < startOffset t) tree'
      = filter (\<lambda>t. off' < startOffset t) (filter (\<lambda>t. off < startOffset t) tree')"
    using lt by (auto intro: filter_cong)
  moreover have "length (filter (\<lambda>t. off' < startOffset t) (filter (\<lambda>t. off < startOffset t) tree'))
      < length (filter (\<lambda>t. off < startOffset t) tree')"
    using t lt by (intro length_filter_less [of t]) simp_all
  ultimately have "length (filter (\<lambda>t. off' < startOffset t) tree')
      < length (filter (\<lambda>t. off < startOffset t) tree')" by simp
  also have "\<dots> \<le> length (filter (\<lambda>t. off < startOffset t) tree)"
    using b by (rule dissonanceBody_shrinks)
  finally show ?thesis .
qed

text \<open>
  The loop over the verticalities: the body runs on the verticality at \<open>off\<close>, and the next
  verticality is looked up in the tree the body has left.
\<close>

function dissonanceLoop :: "(int list \<Rightarrow> bool) \<Rightarrow> tree \<Rightarrow> rat \<Rightarrow> pyError + tree" where
  "dissonanceLoop isConsonant tree off =
     (case dissonanceBody isConsonant tree (getVerticalityAt tree off) of
        Inl e \<Rightarrow> Inl e
      | Inr tree' \<Rightarrow>
          (case getStartOffsetAfter tree' off of
             None \<Rightarrow> Inr tree'
           | Some off' \<Rightarrow> dissonanceLoop isConsonant tree' off'))"
  by pat_completeness auto
termination
  by (relation "measure (\<lambda>(c, tree, off). length (filter (\<lambda>t. off < startOffset t) tree))")
    (auto intro: loop_decreases)

declare dissonanceLoop.simps [simp del]

definition removeVerticalDissonances :: "(int list \<Rightarrow> bool) \<Rightarrow> tree \<Rightarrow> pyError + tree" where
  "removeVerticalDissonances isConsonant tree =
     (case earliestStartOffset tree of
        None \<Rightarrow> Inr tree
      | Some off \<Rightarrow> dissonanceLoop isConsonant tree off)"

subsection \<open>\<open>removeShortTimespans\<close>\<close>

text \<open>
  Modelled from the spec: \<open>OffsetTree.toPartwiseOffsetTrees\<close> is missing. It gives, for
  each part, the timespans of the part in order of their offsets. The parts come in the
  order in which the tree first mentions them.
\<close>

definition toPartwiseOffsetTrees :: "tree \<Rightarrow> (nat \<times> timespan list) list" where
  "toPartwiseOffsetTrees tree =
     map (\<lambda>p. (p, sort_key startOffset (filter (\<lambda>t. tsPart t = p) tree)))
       (remdups (map tsPart tree))"

text \<open>
  The key function \<open>procedure\<close> of the grouping. It reads the tree, which does not change
  before the pass ends, and the local variable \<open>duration\<close> of the method, the threshold,
  which the pass assigns to (line 605); so the threshold is an argument here.
  \<open>bassAt tree off\<close> stands for \<open>tree.getVerticalityAt(off).bassTimespan\<close>.
\<close>

type_synonym groupKey = "int \<times> bool \<times> timespan option"

definition procedure ::
  "(tree \<Rightarrow> rat \<Rightarrow> timespan option) \<Rightarrow> tree \<Rightarrow> rat \<Rightarrow> timespan \<Rightarrow> groupKey" where
  "procedure bassAt tree threshold timespan =
     (let isShort = duration timespan < threshold;
          bass = (case bassAt tree (startOffset timespan) of
                    None \<Rightarrow> None
                  | Some b \<Rightarrow> if duration b < threshold then None else Some b)
      in (measureNumber timespan, isShort, bass))"

text \<open>Lines 590 to 597; a group is never empty.\<close>

definition isEntireMeasure :: "timespan list \<Rightarrow> timespan option \<Rightarrow> bool" where
  "isEntireMeasure grp bass =
     ((startOffset (hd grp) = measureStartOffset (hd grp)
         \<and> stopOffset (last grp) = measureStopOffset (hd grp))
      \<or> (case bass of
            None \<Rightarrow> False
          | Some b \<Rightarrow> startOffset (hd grp) = startOffset b
                       \<and> stopOffset (last grp) = stopOffset b))"

text \<open>
  The counter of line 602 is a dictionary like \<open>presentPCs\<close>; \<open>most_common()\<close> sorts its
  items by descending count with a stable sort, so that among equal counts the order in
  which the dictionary yields its items decides.
\<close>

definition mostCommon :: "(int list \<Rightarrow> nat) \<Rightarrow> (int list \<times> rat) list \<Rightarrow> (int list \<times> rat) list" where
  "mostCommon slot counter = sort_key (\<lambda>kv. - snd kv) (sort_key (\<lambda>kv. slot (fst kv)) counter)"

definition bestOf :: "(int list \<Rightarrow> nat) \<Rightarrow> timespan list \<Rightarrow> int list \<times> rat" where
  "bestOf slot grp =
     hd (mostCommon slot (fold (\<lambda>t counter. dictAdd counter (tsPitches t) (duration t)) grp []))"

text \<open>
  The body of the loop over the groups. Its state is the threshold and the list
  \<open>timespansToRemove\<close>; the assignment \<open>bestPitches, duration = counter.most_common()[0]\<close>
  sets the threshold to the count of the most common pitches.
\<close>

definition groupBody ::
  "(int list \<Rightarrow> nat) \<Rightarrow> rat \<times> timespan list \<Rightarrow> groupKey \<Rightarrow> timespan list
   \<Rightarrow> rat \<times> timespan list" where
  "groupBody slot state key grp =
     (if \<not> fst (snd key) then state
      else if isEntireMeasure grp (snd (snd key)) then
        (snd (bestOf slot grp),
         snd state @ filter (\<lambda>t. tsPitches t \<noteq> fst (bestOf slot grp)) grp)
      else (fst state, snd state @ grp))"

lemma dropWhile_shorter: "dropWhile P xs = y # ys \<Longrightarrow> length ys < length xs"
  using length_dropWhile_le [of P xs] by simp

text \<open>
  \<open>itertools.groupby\<close> computes the key of an element when it takes the element from the
  sequence: the keys of the members of a group, and of the element that ends the group, are
  computed before the body runs on the group, with the threshold of that moment; the
  following keys are computed with the threshold the body has left.
\<close>

function groupLoop ::
  "(tree \<Rightarrow> rat \<Rightarrow> timespan option) \<Rightarrow> (int list \<Rightarrow> nat) \<Rightarrow> tree \<Rightarrow> rat \<times> timespan list
   \<Rightarrow> groupKey \<Rightarrow> timespan \<Rightarrow> timespan list \<Rightarrow> rat \<times> timespan list" where
  "groupLoop bassAt slot tree state key x xs =
     (let k = procedure bassAt tree (fst state);
          grp = x # takeWhile (\<lambda>y. k y = key) xs;
          state' = groupBody slot state key grp
      in case dropWhile (\<lambda>y. k y = key) xs of
           [] \<Rightarrow> state'
         | y # ys \<Rightarrow> groupLoop bassAt slot tree state' (k y) y ys)"
  by pat_completeness auto
termination
  by (relation "measure (\<lambda>(bassAt, slot, tree, state, key, x, xs). length xs)")
    (auto intro: dropWhile_shorter)

declare groupLoop.simps [simp del]

definition partBody ::
  "(tree \<Rightarrow> rat \<Rightarrow> timespan option) \<Rightarrow> (int list \<Rightarrow> nat) \<Rightarrow> tree \<Rightarrow> rat \<times> timespan list
   \<Rightarrow> nat \<times> timespan list \<Rightarrow> rat \<times> timespan list" where
  "partBody bassAt slot tree state partAndSubtree =
     (case snd partAndSubtree of
        [] \<Rightarrow> state
      | x # xs \<Rightarrow> groupLoop bassAt slot tree state (procedure bassAt tree (fst state) x) x xs)"

definition removeShortTimespans ::
  "(tree \<Rightarrow> rat \<Rightarrow> timespan option) \<Rightarrow> (int list \<Rightarrow> nat) \<Rightarrow> tree \<Rightarrow> rat \<Rightarrow> pyError + tree" where
  "removeShortTimespans bassAt slot tree duration0 =
     treeRemoveAll
       (snd (foldl (partBody bassAt slot tree) (duration0, []) (toPartwiseOffsetTrees tree)))
       tree"

text \<open>
  The grouping and the removals as the description of the pass has them, with a threshold
  that stays what it is: the groups of a sequence under a fixed key, the groups of all
  parts, what is removed of a group, and the groups treated as a whole measure.
\<close>

function groupsBy :: "('a \<Rightarrow> 'k) \<Rightarrow> 'a list \<Rightarrow> ('k \<times> 'a list) list" where
  "groupsBy k [] = []"
| "groupsBy k (x # xs) =
     (k x, x # takeWhile (\<lambda>y. k y = k x) xs) # groupsBy k (dropWhile (\<lambda>y. k y = k x) xs)"
  by pat_completeness auto
termination
  by (relation "measure (\<lambda>(k, xs). length xs)")
    (auto simp add: less_Suc_eq_le length_dropWhile_le)

definition allGroups ::
  "(tree \<Rightarrow> rat \<Rightarrow> timespan option) \<Rightarrow> tree \<Rightarrow> rat \<Rightarrow> (groupKey \<times> timespan list) list" where
  "allGroups bassAt tree threshold =
     concat (map (\<lambda>ps. groupsBy (procedure bassAt tree threshold) (snd ps))
               (toPartwiseOffsetTrees tree))"

definition wholeGroup :: "groupKey \<times> timespan list \<Rightarrow> bool" where
  "wholeGroup g = (fst (snd (fst g)) \<and> isEntireMeasure (snd g) (snd (snd (fst g))))"

definition removalsOf :: "(int list \<Rightarrow> nat) \<Rightarrow> groupKey \<times> timespan list \<Rightarrow> timespan list" where
  "removalsOf slot g =
     (if \<not> fst (snd (fst g)) then []
      else if isEntireMeasure (snd g) (snd (snd (fst g)))
      then filter (\<lambda>t. tsPitches t \<noteq> fst (bestOf slot (snd g))) (snd g)
      else snd g)"

text \<open>
  The cumulative duration of a pitch set in a group, and what it is for a pitch set to be
  the most common one of the group: it occurs in the group, no pitch set of the group has a
  greater cumulative duration, and among those of the same cumulative duration none has an
  earlier place in the dictionary.
\<close>

definition cumulativeDuration :: "timespan list \<Rightarrow> int list \<Rightarrow> rat" where
  "cumulativeDuration grp ps = sum_list (map duration (filter (\<lambda>t. tsPitches t = ps) grp))"

definition isBest :: "(int list \<Rightarrow> nat) \<Rightarrow> timespan list \<Rightarrow> int list \<Rightarrow> bool" where
  "isBest slot grp b =
     (b \<in> tsPitches ` set grp
      \<and> (\<forall>p\<in>tsPitches ` set grp. cumulativeDuration grp p \<le> cumulativeDuration grp b)
      \<and> (\<forall>p\<in>tsPitches ` set grp.
            cumulativeDuration grp p = cumulativeDuration grp b \<longrightarrow> slot b \<le> slot p))"

subsection \<open>Notions used in the statements and proofs\<close>

text \<open>
  The pitch-class sets of the notes and chords a stream holds: for the stream
  \<open>reduceMeasureToNChords\<close> returns, the pitch-class sets it has kept.
\<close>

definition keptPCs :: "heap \<Rightarrow> nat list \<Rightarrow> pcs set" where
  "keptPCs h es = {p. \<exists>a\<in>set (notesOf h es). pcsOf (h a) = Inr p}"



text \<open>
  Frame conditions on heaps: nothing changes outside a set of addresses, and of no
  element anything changes but offset, quarter length and the components' ties and
  accidentals.
\<close>

definition unchangedOutside :: "nat set \<Rightarrow> heap \<Rightarrow> heap \<Rightarrow> bool" where
  "unchangedOutside S h h' = (\<forall>a. a \<notin> S \<longrightarrow> h' a = h a)"

definition onlyTimingAndTies :: "heap \<Rightarrow> heap \<Rightarrow> bool" where
  "onlyTimingAndTies h h' =
     (\<forall>a. kind (h' a) = kind (h a) \<and> pitches (h' a) = pitches (h a)
          \<and> beatStrength (h' a) = beatStrength (h a) \<and> consonant (h' a) = consonant (h a)
          \<and> tie (h' a) = tie (h a))"

text \<open>
  The sum of the quarter lengths of a stream's events, and streams whose events follow one
  another without gap or overlap from the time \<open>t\<close> on, none of negative length.
\<close>

definition sumQL :: "heap \<Rightarrow> nat list \<Rightarrow> rat" where
  "sumQL h es = sum_list (map (\<lambda>a. quarterLength (h a)) es)"

fun contiguousFrom :: "heap \<Rightarrow> rat \<Rightarrow> nat list \<Rightarrow> bool" where
  "contiguousFrom h t [] = True"
| "contiguousFrom h t (a # rest) =
     (offset (h a) = t \<and> 0 \<le> quarterLength (h a)
      \<and> contiguousFrom h (t + quarterLength (h a)) rest)"

text \<open>The sum of the quarter lengths of the events of the stream a call returns.\<close>

definition returnedLength :: "pyError + store \<times> nat \<Rightarrow> pyError + rat" where
  "returnedLength r = (case r of Inl e \<Rightarrow> Inl e | Inr (s, v) \<Rightarrow> Inr (sumQL (elems s) (streams s v)))"

text \<open>
  The invariant of the sweep over a contiguous stream that starts at \<open>t0\<close>: the stream is
  the kept elements \<open>pre\<close> followed by the elements \<open>as\<close> still to visit, which start at
  the time \<open>\<tau>\<close>; as long as nothing is kept the absorbed length is \<open>\<tau> - t0\<close>, afterwards
  the lengths of the kept elements but the last, and the absorbed length, add up to \<open>\<tau>\<close>.
\<close>

definition sweepInv :: "rat \<Rightarrow> sweepState \<Rightarrow> rat \<Rightarrow> nat list \<Rightarrow> nat list \<Rightarrow> bool" where
  "sweepInv t0 st \<tau> pre as =
     (streamS st = pre @ as \<and> distinct (pre @ as) \<and> contiguousFrom (heapS st) \<tau> as
      \<and> 0 \<le> t0 \<and> t0 \<le> \<tau>
      \<and> (case currentGreedyChord st of
            None \<Rightarrow> pre = [] \<and> currentGreedyChordNewLength st = \<tau> - t0
          | Some g \<Rightarrow> pre \<noteq> [] \<and> g = last pre
              \<and> sumQL (heapS st) (butlast pre) + currentGreedyChordNewLength st = \<tau>))"

text \<open>
  The tree as it is when the loop of \<open>removeVerticalDissonances\<close> reaches the offset
  \<open>off\<close>, given the tree \<open>final\<close> the pass leaves: of the timespans that begin before
  \<open>off\<close> those that the pass removes are gone. And the condition under which a timespan
  that begins at a verticality is left in the tree.
\<close>

definition liveTree :: "tree \<Rightarrow> tree \<Rightarrow> rat \<Rightarrow> tree" where
  "liveTree tree final off = filter (\<lambda>t. startOffset t < off \<longrightarrow> t \<in> set final) tree"

definition survives :: "(int list \<Rightarrow> bool) \<Rightarrow> verticality \<Rightarrow> timespan \<Rightarrow> bool" where
  "survives isConsonant v t =
     (isConsonant (pitchSet v) \<or> Min (set (tsPitches t)) = Min (set (pitchSet v)))"

text \<open>Two heaps whose elements have the same kinds and the same pitches.\<close>

definition sameContent :: "heap \<Rightarrow> heap \<Rightarrow> bool" where
  "sameContent h h' = (\<forall>a. kind (h' a) = kind (h a) \<and> pitches (h' a) = pitches (h a))"

text \<open>
  What the sweep leaves in the stream, as a function of the pitch-class sets alone: an
  element stays when its set is among the trimmed ones and differs from the set of the
  element kept last.
\<close>

fun keptOf :: "heap \<Rightarrow> pcs list \<Rightarrow> pcs option \<Rightarrow> nat list \<Rightarrow> nat list" where
  "keptOf h t cur [] = []"
| "keptOf h t cur (c # rest) =
     (case pcsOf (h c) of
        Inl e \<Rightarrow> []
      | Inr p \<Rightarrow>
          if p \<in> set t \<and> Some p \<noteq> cur then c # keptOf h t (Some p) rest
          else keptOf h t cur rest)"

text \<open>A dictionary without negative weights.\<close>

definition nonnegDict :: "(pcs \<times> rat) list \<Rightarrow> bool" where
  "nonnegDict d = (\<forall>v\<in>snd ` set d. 0 \<le> v)"

text \<open>
  The events of the stream a call returns, with their attributes at the time of the
  return (or the error the call raises).
\<close>

definition returnedEvents :: "pyError + store \<times> nat \<Rightarrow> pyError + element list" where
  "returnedEvents r =
     (case r of Inl e \<Rightarrow> Inl e | Inr (s, v) \<Rightarrow> Inr (map (elems s) (streams s v)))"

subsection \<open>Example measures\<close>

definition chordOf :: "int list \<Rightarrow> rat \<Rightarrow> rat \<Rightarrow> rat \<Rightarrow> bool \<Rightarrow> element" where
  "chordOf ps off ql bs con =
     \<lparr>kind = Chord,
      components = map (\<lambda>p. \<lparr>cpitch = p, ctie = None, accidental = None\<rparr>) ps,
      offset = off, quarterLength = ql, beatStrength = bs, consonant = con, tie = None\<rparr>"

definition restOf :: "rat \<Rightarrow> rat \<Rightarrow> element" where
  "restOf off ql =
     \<lparr>kind = Rest, components = [], offset = off, quarterLength = ql, beatStrength = 1,
      consonant = False, tie = None\<rparr>"

definition otherElement :: element where
  "otherElement =
     \<lparr>kind = Other, components = [], offset = 0, quarterLength = 0, beatStrength = 0,
      consonant = False, tie = None\<rparr>"

definition storeOf :: "element list \<Rightarrow> store" where
  "storeOf es =
     \<lparr>elems = (\<lambda>a. if a < length es then es ! a else otherElement),
      streams = (\<lambda>sid. if sid = 0 then [0..<length es] else []),
      isFlat = (\<lambda>_. True), nextElem = length es, nextStream = 1\<rparr>"

text \<open>
  \<open>testMeasureStream1\<close> of the source, as stream 0 of a store: a 4/4 time signature, the
  chord C4 E4 G4 C5 for two quarters, C4 E4 F4 B4 for one, and C4 E4 G4 C5 for one.
\<close>

definition testMeasureStream1 :: store where
  "testMeasureStream1 =
     storeOf [otherElement,
              chordOf [60, 64, 67, 72] 0 2 1 True,
              chordOf [60, 64, 65, 71] 2 1 (1 / 2) False,
              chordOf [60, 64, 67, 72] 3 1 (1 / 4) True]"

text \<open>A measure that holds nothing but a rest of four quarters.\<close>

definition restMeasure :: store where
  "restMeasure = storeOf [restOf 0 4]"

text \<open>A chord, a rest of one quarter, and another chord.\<close>

definition chordRestChord :: store where
  "chordRestChord =
     storeOf [chordOf [60, 64, 67] 0 1 1 True, restOf 1 1, chordOf [62, 65, 69] 2 2 (1 / 2) True]"

text \<open>Three one-note chords (G, C, C sharp) of one quarter each.\<close>

definition threeChords :: heap where
  "threeChords =
     (\<lambda>_. otherElement)(0 := chordOf [67] 0 1 1 True, 1 := chordOf [60] 1 1 1 True,
                           2 := chordOf [61] 2 1 1 True)"

text \<open>
  Timespans of one measure of four quarters; a stand-in for the consonance judgement (all
  intervals between the pitches are unisons, thirds, fourths, fifths or sixths); and a tree
  with a bass note, a dissonant note above it, and a later third.
\<close>

definition timespanOf :: "rat \<Rightarrow> rat \<Rightarrow> nat \<Rightarrow> int list \<Rightarrow> timespan" where
  "timespanOf a b p ps =
     \<lparr>startOffset = a, stopOffset = b, tsPart = p, tsPitches = ps, tsBeatStrength = 1,
      measureNumber = 1, measureStartOffset = 0, measureStopOffset = 4\<rparr>"

definition consonantIntervals :: "int list \<Rightarrow> bool" where
  "consonantIntervals ps =
     list_all (\<lambda>p. list_all (\<lambda>q. (q - p) mod 12 \<in> set [0, 3, 4, 5, 7, 8, 9]) ps) ps"

definition dissonantTree :: tree where
  "dissonantTree = [timespanOf 0 4 0 [36], timespanOf 0 4 1 [61], timespanOf 2 4 2 [64]]"

text \<open>A part of two equal chords (0, 1), and a note followed by a one-note chord of the
  same pitch (2, 3).\<close>

definition tiesExample :: heap where
  "tiesExample =
     (\<lambda>_. \<lparr>kind = Other, components = [], offset = 0, quarterLength = 0, beatStrength = 0,
            consonant = False, tie = None\<rparr>)
     (0 := \<lparr>kind = Chord, components = [\<lparr>cpitch = 60, ctie = None, accidental = None\<rparr>,
                \<lparr>cpitch = 64, ctie = None, accidental = None\<rparr>],
            offset = 0, quarterLength = 2, beatStrength = 1, consonant = True, tie = None\<rparr>,
      1 := \<lparr>kind = Chord, components = [\<lparr>cpitch = 60, ctie = None, accidental = None\<rparr>,
                \<lparr>cpitch = 64, ctie = None, accidental = None\<rparr>],
            offset = 2, quarterLength = 2, beatStrength = 1/2, consonant = True, tie = None\<rparr>,
      2 := \<lparr>kind = Note, components = [\<lparr>cpitch = 60, ctie = None, accidental = None\<rparr>],
            offset = 0, quarterLength = 2, beatStrength = 1, consonant = True, tie = None\<rparr>,
      3 := \<lparr>kind = Chord, components = [\<lparr>cpitch = 60, ctie = None, accidental = None\<rparr>],
            offset = 2, quarterLength = 2, beatStrength = 1/2, consonant = True, tie = None\<rparr>)"

text \<open>
  Timespans of part 0 in measures of one quarter, measure \<open>m\<close> reaching from \<open>m - 1\<close> to
  \<open>m\<close>: two short timespans at the two ends of a measure with nothing between them; a
  tree with a short timespan that is followed by a long one, and a last measure of four
  short timespans; and a tree whose first measure consists of four short timespans and
  whose third measure holds one timespan of three fifths of a quarter.
\<close>

definition timespanInMeasure :: "int \<Rightarrow> rat \<Rightarrow> rat \<Rightarrow> int list \<Rightarrow> timespan" where
  "timespanInMeasure m a b ps =
     \<lparr>startOffset = a, stopOffset = b, tsPart = 0, tsPitches = ps, tsBeatStrength = 1,
      measureNumber = m, measureStartOffset = of_int m - 1, measureStopOffset = of_int m\<rparr>"

definition gapTree :: tree where
  "gapTree = [timespanInMeasure 1 0 (1/4) [60], timespanInMeasure 1 (3/4) 1 [60]]"

definition shortsTree :: tree where
  "shortsTree =
     [timespanInMeasure 1 0 1 [48],
      timespanInMeasure 2 1 (5/4) [50], timespanInMeasure 2 (5/4) 2 [52],
      timespanInMeasure 3 2 (9/4) [60], timespanInMeasure 3 (9/4) (5/2) [60],
      timespanInMeasure 3 (5/2) (11/4) [62], timespanInMeasure 3 (11/4) 3 [60]]"

definition reassignedTree :: tree where
  "reassignedTree =
     [timespanInMeasure 1 0 (1/4) [60], timespanInMeasure 1 (1/4) (1/2) [60],
      timespanInMeasure 1 (1/2) (3/4) [60], timespanInMeasure 1 (3/4) 1 [62],
      timespanInMeasure 2 1 (8/5) [64], timespanInMeasure 2 (8/5) 2 [65],
      timespanInMeasure 3 2 (13/5) [67]]"

section \<open>Theorems\<close>

text \<open>
  C1 (as stated, refuted). The claim lists six passes, each run once, hocket alignment
  last. The log of the calls is a different list: it has seven entries, bass-gap filling
  occurs twice, and hocket alignment comes before inner measure-gap filling.
\<close>

theorem C1_six_passes_counterexample:
  "callPasses logPasses [] \<noteq>
     [RemoveVerticalDissonances, FillBassGaps, RemoveShortTimespans,
      FillOuterMeasureGaps, FillInnerMeasureGaps, AlignHockets]
   \<and> length (callPasses logPasses []) = 7
   \<and> count_list (callPasses logPasses []) FillBassGaps = 2"
  by (simp add: callPasses_def logPasses_def)

text \<open>
  C1 (amended). For any implementation of the passes and any tree, the pipeline is the
  seven calls dissonance removal, bass-gap filling, short-timespan pruning, bass-gap
  filling again, outer measure-gap filling, hocket alignment, inner measure-gap filling,
  in this order; and the log of the calls is exactly this list.
\<close>

theorem C1_pipeline_order:
  "callPasses P tree =
     fold (runPass P)
       [RemoveVerticalDissonances, FillBassGaps, RemoveShortTimespans, FillBassGaps,
        FillOuterMeasureGaps, AlignHockets, FillInnerMeasureGaps] tree
   \<and> callPasses logPasses [] =
       [RemoveVerticalDissonances, FillBassGaps, RemoveShortTimespans, FillBassGaps,
        FillOuterMeasureGaps, AlignHockets, FillInnerMeasureGaps]"
  by (simp add: callPasses_def logPasses_def)

subsection \<open>Ties\<close>

lemma kind_setTie [simp]: "kind (setTie e v) = kind e"
  by (simp add: setTie_def)

lemma pitches_setTie [simp]: "pitches (setTie e v) = pitches e"
  by (simp add: setTie_def pitches_def comp_def)

lemma setTie_idem [simp]: "setTie (setTie e v) v = setTie e v"
  by (simp add: setTie_def comp_def)

lemma getTie_setTie:
  "kind e = Chord \<longrightarrow> components e \<noteq> [] \<Longrightarrow> getTie (setTie e (Some v)) = Some v"
  by (cases "components e") (auto simp add: getTie_def setTie_def)

lemma applyTiesBody_eq:
  "applyTiesBody h a b
     = (if tieGuard (h a) (h b) then h(a := setTie (h a) (Some TieStart)) else h)"
  by (auto simp add: applyTiesBody_def tieGuard_def Let_def)

lemma applyTiesBody_kind [simp]: "kind (applyTiesBody h a b x) = kind (h x)"
  by (simp add: applyTiesBody_eq)

lemma applyTiesBody_pitches [simp]: "pitches (applyTiesBody h a b x) = pitches (h x)"
  by (simp add: applyTiesBody_eq)

lemma applyTiesBody_proto [simp]: "isPrototype (applyTiesBody h a b x) = isPrototype (h x)"
  by (simp add: isPrototype_def)

lemma applyTiesLoop_kind [simp]: "kind (applyTiesLoop h buf as x) = kind (h x)"
  by (induction h buf as rule: applyTiesLoop.induct) (simp_all add: Let_def)

lemma applyTiesLoop_pitches [simp]: "pitches (applyTiesLoop h buf as x) = pitches (h x)"
  by (induction h buf as rule: applyTiesLoop.induct) (simp_all add: Let_def)

lemma prototypes_applyTiesBody [simp]:
  "prototypes (applyTiesBody h a b) as = prototypes h as"
  by (simp add: prototypes_def)

lemma tieGuard_applyTiesBody [simp]:
  "tieGuard (applyTiesBody h a b x) (applyTiesBody h a b y) = tieGuard (h x) (h y)"
  by (simp add: tieGuard_def)

lemma tiedOnes_applyTiesBody [simp]: "tiedOnes (applyTiesBody h a b) ps = tiedOnes h ps"
  by (induction h ps rule: tiedOnes.induct) simp_all

lemma tiedOnes_index:
  "x \<in> set (tiedOnes h ps)
     \<longleftrightarrow> (\<exists>i. Suc i < length ps \<and> ps ! i = x \<and> tieGuard (h (ps ! i)) (h (ps ! Suc i)))"
proof (induction h ps rule: tiedOnes.induct)
  case (1 h a b rest)
  have "(\<exists>i. Suc i < length (a # b # rest) \<and> (a # b # rest) ! i = x
            \<and> tieGuard (h ((a # b # rest) ! i)) (h ((a # b # rest) ! Suc i)))
      \<longleftrightarrow> (a = x \<and> tieGuard (h a) (h b))
          \<or> (\<exists>j. Suc j < length (b # rest) \<and> (b # rest) ! j = x
                 \<and> tieGuard (h ((b # rest) ! j)) (h ((b # rest) ! Suc j)))"
    (is "?L \<longleftrightarrow> ?A \<or> ?R")
  proof
    assume ?L
    then obtain i where i: "Suc i < length (a # b # rest)" "(a # b # rest) ! i = x"
      "tieGuard (h ((a # b # rest) ! i)) (h ((a # b # rest) ! Suc i))" by blast
    show "?A \<or> ?R"
    proof (cases i)
      case 0
      with i show ?thesis by simp
    next
      case (Suc j)
      with i have "Suc j < length (b # rest) \<and> (b # rest) ! j = x
                 \<and> tieGuard (h ((b # rest) ! j)) (h ((b # rest) ! Suc j))" by simp
      then show ?thesis by blast
    qed
  next
    assume "?A \<or> ?R"
    then show ?L
    proof
      assume ?A
      then have "Suc 0 < length (a # b # rest) \<and> (a # b # rest) ! 0 = x
            \<and> tieGuard (h ((a # b # rest) ! 0)) (h ((a # b # rest) ! Suc 0))" by auto
      then show ?L by blast
    next
      assume ?R
      then obtain j where "Suc j < length (b # rest)" "(b # rest) ! j = x"
        "tieGuard (h ((b # rest) ! j)) (h ((b # rest) ! Suc j))" by blast
      then have "Suc (Suc j) < length (a # b # rest) \<and> (a # b # rest) ! Suc j = x
            \<and> tieGuard (h ((a # b # rest) ! Suc j)) (h ((a # b # rest) ! Suc (Suc j)))" by simp
      then show ?L by blast
    qed
  qed
  with 1 show ?case by auto
next
  case (2 h a)
  then show ?case by simp
next
  case (3 h)
  then show ?case by simp
qed

lemma applyTiesLoop_tiedOnes:
  "length buf \<le> 1 \<Longrightarrow>
   applyTiesLoop h buf as x
     = (if x \<in> set (tiedOnes h (buf @ prototypes h as)) then setTie (h x) (Some TieStart)
        else h x)"
proof (induction as arbitrary: h buf)
  case Nil
  then show ?case by (cases buf) (simp_all add: prototypes_def)
next
  case (Cons a as)
  show ?case
  proof (cases "isPrototype (h a)")
    case False
    then have eq: "prototypes h (a # as) = prototypes h as"
      by (simp add: prototypes_def)
    from Cons.IH [of buf h] Cons.prems False show ?thesis
      by (simp add: eq)
  next
    case True
    then have eq: "prototypes h (a # as) = a # prototypes h as"
      by (simp add: prototypes_def)
    show ?thesis
    proof (cases buf)
      case Nil
      from Cons.IH [of "[a]" h] True show ?thesis
        by (simp add: eq Nil)
    next
      case (Cons b bs)
      with Cons.prems have buf: "buf = [b]" by simp
      define h' where "h' = applyTiesBody h b a"
      have loop: "applyTiesLoop h buf (a # as) x = applyTiesLoop h' [a] as x"
        using True by (simp add: buf h'_def)
      have IH: "applyTiesLoop h' [a] as x
          = (if x \<in> set (tiedOnes h (a # prototypes h as)) then setTie (h' x) (Some TieStart)
             else h' x)"
        using Cons.IH [of "[a]" h'] by (simp add: h'_def)
      have h'x: "h' x = (if x = b \<and> tieGuard (h b) (h a) then setTie (h x) (Some TieStart) else h x)"
        by (simp add: h'_def applyTiesBody_eq)
      have t: "tiedOnes h (buf @ prototypes h (a # as))
          = (if tieGuard (h b) (h a) then b # tiedOnes h (a # prototypes h as)
             else tiedOnes h (a # prototypes h as))"
        by (simp add: buf eq)
      show ?thesis unfolding loop IH h'x t by simp
    qed
  qed
qed

text \<open>
  C9 (as stated, refuted). A note followed by a chord whose only pitch is the note's pitch
  are adjacent events with identical pitch content, yet \<open>_applyTies\<close> leaves the note
  without a tie: the body only compares a note with a note and a chord with a chord.
\<close>

theorem C9_note_then_chord_counterexample:
  "prototypes tiesExample [2, 3] = [2, 3]
   \<and> pitches (tiesExample 2) = pitches (tiesExample 3)
   \<and> getTie (applyTies tiesExample [2, 3] 2) = None"
  by (simp add: tiesExample_def prototypes_def isPrototype_def applyTies_def
      applyTiesBody_def pitches_def getTie_def Let_def)

text \<open>
  C9 (amended). Take the chords, notes and rests of the part in their order. \<open>_applyTies\<close>
  gives a tie-start marker to an element exactly when it is the earlier element of two
  adjacent ones that are both notes of equal pitch or both chords with equal pitch
  sequences, and leaves every other element as it is: a note next to a chord of the same
  pitch content gets no tie from that pair, and no rest is changed. Where the marker is
  given, it is read from the element afterwards (for a chord, if the chord has at least
  one pitch). The pass changes no element's kind or pitches.
\<close>

theorem C9_ties:
  "(\<forall>a. applyTies h part a =
          (if (\<exists>i. Suc i < length (prototypes h part) \<and> prototypes h part ! i = a
                 \<and> tieGuard (h (prototypes h part ! i)) (h (prototypes h part ! Suc i)))
           then setTie (h a) (Some TieStart) else h a))
   \<and> (\<forall>i. Suc i < length (prototypes h part) \<longrightarrow>
          tieGuard (h (prototypes h part ! i)) (h (prototypes h part ! Suc i)) \<longrightarrow>
          (kind (h (prototypes h part ! i)) = Chord \<longrightarrow> components (h (prototypes h part ! i)) \<noteq> []) \<longrightarrow>
          getTie (applyTies h part (prototypes h part ! i)) = Some TieStart)
   \<and> (\<forall>a. kind (h a) = Rest \<longrightarrow> applyTies h part a = h a)
   \<and> (\<forall>a. kind (applyTies h part a) = kind (h a)
          \<and> pitches (applyTies h part a) = pitches (h a))"
proof -
  have c: "applyTies h part a =
          (if (\<exists>i. Suc i < length (prototypes h part) \<and> prototypes h part ! i = a
                 \<and> tieGuard (h (prototypes h part ! i)) (h (prototypes h part ! Suc i)))
           then setTie (h a) (Some TieStart) else h a)" for a
    using applyTiesLoop_tiedOnes [of "[]" h part a]
    by (simp add: applyTies_def tiedOnes_index)
  have t: "getTie (applyTies h part (prototypes h part ! i)) = Some TieStart"
    if "Suc i < length (prototypes h part)"
      and "tieGuard (h (prototypes h part ! i)) (h (prototypes h part ! Suc i))"
      and "kind (h (prototypes h part ! i)) = Chord \<longrightarrow> components (h (prototypes h part ! i)) \<noteq> []"
    for i
  proof -
    from that(1,2) have "applyTies h part (prototypes h part ! i)
        = setTie (h (prototypes h part ! i)) (Some TieStart)"
      unfolding c [of "prototypes h part ! i"] by auto
    with that(3) show ?thesis by (simp add: getTie_setTie)
  qed
  have r: "applyTies h part a = h a" if "kind (h a) = Rest" for a
  proof -
    from that have "\<not> tieGuard (h a) e" for e by (simp add: tieGuard_def)
    then show ?thesis unfolding c [of a] by auto
  qed
  have k: "kind (applyTies h part a) = kind (h a) \<and> pitches (applyTies h part a) = pitches (h a)"
    for a by (simp add: applyTies_def)
  from c t r k show ?thesis by blast
qed

theorem C9_ties_witness:
  "Suc 0 < length (prototypes tiesExample [0, 1])
   \<and> tieGuard (tiesExample (prototypes tiesExample [0, 1] ! 0))
        (tiesExample (prototypes tiesExample [0, 1] ! Suc 0))
   \<and> components (tiesExample (prototypes tiesExample [0, 1] ! 0)) \<noteq> []
   \<and> getTie (applyTies tiesExample [0, 1] 0) = Some TieStart
   \<and> applyTies tiesExample [0, 1] 1 = tiesExample 1"
proof -
  have p: "prototypes tiesExample [0, 1] = [0, 1]"
    by (simp add: tiesExample_def prototypes_def isPrototype_def)
  have g: "tieGuard (tiesExample 0) (tiesExample 1)"
    by (simp add: tiesExample_def tieGuard_def pitches_def)
  have c: "components (tiesExample 0) \<noteq> []" by (simp add: tiesExample_def)
  have n: "\<not> (\<exists>i. Suc i < length [0::nat, 1] \<and> [0::nat, 1] ! i = 1
                 \<and> tieGuard (tiesExample ([0, 1] ! i)) (tiesExample ([0, 1] ! Suc i)))"
    by auto
  from C9_ties [of tiesExample "[0, 1]"]
  have A: "\<forall>i. Suc i < length (prototypes tiesExample [0, 1]) \<longrightarrow>
          tieGuard (tiesExample (prototypes tiesExample [0, 1] ! i))
            (tiesExample (prototypes tiesExample [0, 1] ! Suc i)) \<longrightarrow>
          (kind (tiesExample (prototypes tiesExample [0, 1] ! i)) = Chord \<longrightarrow>
             components (tiesExample (prototypes tiesExample [0, 1] ! i)) \<noteq> []) \<longrightarrow>
          getTie (applyTies tiesExample [0, 1] (prototypes tiesExample [0, 1] ! i)) = Some TieStart"
    and B: "\<forall>a. applyTies tiesExample [0, 1] a =
          (if (\<exists>i. Suc i < length (prototypes tiesExample [0, 1])
                 \<and> prototypes tiesExample [0, 1] ! i = a
                 \<and> tieGuard (tiesExample (prototypes tiesExample [0, 1] ! i))
                      (tiesExample (prototypes tiesExample [0, 1] ! Suc i)))
           then setTie (tiesExample a) (Some TieStart) else tiesExample a)"
    by blast+
  from A [rule_format, of 0] p g c
  have t: "getTie (applyTies tiesExample [0, 1] 0) = Some TieStart" by simp
  from B [rule_format, of 1] n have u: "applyTies tiesExample [0, 1] 1 = tiesExample 1"
    unfolding p by (simp only: if_False)
  from p g c t u show ?thesis by simp
qed

subsection \<open>The chord collapser: selection and sweep\<close>

lemma pcsOf_cong: "kind e' = kind e \<Longrightarrow> pitches e' = pitches e \<Longrightarrow> pcsOf e' = pcsOf e"
proof -
  assume k: "kind e' = kind e" and p: "pitches e' = pitches e"
  have "map (\<lambda>x. cpitch x mod 12) (components e) = map (\<lambda>p. p mod 12) (pitches e)" for e
    by (simp add: pitches_def)
  with k p show ?thesis by (simp add: pcsOf_def)
qed

lemma pitches_clearTies [simp]: "pitches (clearTies c) = pitches c"
  by (simp add: clearTies_def pitches_def comp_def)

lemma kind_clearTies [simp]: "kind (clearTies c) = kind c"
  by (simp add: clearTies_def)

lemma offset_clearTies [simp]: "offset (clearTies c) = offset c"
  by (simp add: clearTies_def)

lemma quarterLength_clearTies [simp]: "quarterLength (clearTies c) = quarterLength c"
  by (simp add: clearTies_def)

lemma sameContent_refl [simp]: "sameContent h h"
  by (simp add: sameContent_def)

lemma sameContent_trans: "sameContent h h' \<Longrightarrow> sameContent h' h'' \<Longrightarrow> sameContent h h''"
  by (simp add: sameContent_def)

lemma sameContent_pcsOf: "sameContent h h' \<Longrightarrow> pcsOf (h' a) = pcsOf (h a)"
  by (rule pcsOf_cong) (simp_all add: sameContent_def)

lemma sameContent_upd:
  "kind e = kind (h a) \<Longrightarrow> pitches e = pitches (h a) \<Longrightarrow> sameContent h (h(a := e))"
  by (simp add: sameContent_def)

lemma closePrevious_sameContent: "sameContent (heapS st) (heapS (closePrevious st c))"
  by (simp add: closePrevious_def sameContent_def pitches_def split: option.split)

lemma closePrevious_stream [simp]: "streamS (closePrevious st c) = streamS st"
  by (simp add: closePrevious_def split: option.split)

lemma keepChord_sameContent: "sameContent (heapS st) (heapS (keepChord st c p))"
proof -
  have "sameContent (heapS (closePrevious st c)) (heapS (keepChord st c p))"
    by (simp add: keepChord_def Let_def sameContent_def)
  with closePrevious_sameContent [of st c] show ?thesis by (rule sameContent_trans)
qed

lemma keepChord_simps [simp]:
  "streamS (keepChord st c p) = streamS st"
  "currentGreedyChordPCs (keepChord st c p) = Some p"
  "currentGreedyChord (keepChord st c p) = Some c"
  by (simp_all add: keepChord_def Let_def)

lemma dropChord_simps [simp]:
  "streamS (dropChord st c) = remove1 c (streamS st)"
  "currentGreedyChordPCs (dropChord st c) = currentGreedyChordPCs st"
  "currentGreedyChord (dropChord st c) = currentGreedyChord st"
  "heapS (dropChord st c) = heapS st"
  "currentGreedyChordNewLength (dropChord st c) = currentGreedyChordNewLength st + quarterLength (heapS st c)"
  by (simp_all add: dropChord_def)

lemma sweepStep_Inr:
  "sweepStep t st c = Inr st' \<longleftrightarrow>
     (\<exists>p. pcsOf (heapS st c) = Inr p \<and>
        st' = (if p \<in> set t \<and> Some p \<noteq> currentGreedyChordPCs st then keepChord st c p else dropChord st c))"
  by (cases "pcsOf (heapS st c)") (auto simp add: sweepStep_def)

lemma sweepStep_sameContent:
  "sweepStep t st c = Inr st' \<Longrightarrow> sameContent (heapS st) (heapS st')"
  by (auto simp add: sweepStep_Inr keepChord_sameContent split: if_splits)

lemma keptOf_cong: "sameContent h h' \<Longrightarrow> keptOf h' t cur as = keptOf h t cur as"
  by (induction as arbitrary: cur) (simp_all add: sameContent_pcsOf split: sum.splits)

lemma keptOf_subset:
  "a \<in> set (keptOf h t cur as) \<Longrightarrow> a \<in> set as \<and> (\<exists>p\<in>set t. pcsOf (h a) = Inr p)"
proof (induction as arbitrary: cur)
  case Nil
  then show ?case by simp
next
  case (Cons c as)
  show ?case
  proof (cases "pcsOf (h c)")
    case (Inl e)
    with Cons.prems show ?thesis by simp
  next
    case (Inr p)
    show ?thesis
    proof (cases "p \<in> set t \<and> Some p \<noteq> cur")
      case True
      with Inr Cons.prems have "a = c \<or> a \<in> set (keptOf h t (Some p) as)" by simp
      then show ?thesis
      proof
        assume "a = c"
        with Inr True show ?thesis by auto
      next
        assume "a \<in> set (keptOf h t (Some p) as)"
        from Cons.IH [OF this] show ?thesis by simp
      qed
    next
      case False
      with Inr Cons.prems have "a \<in> set (keptOf h t cur as)" by simp
      from Cons.IH [OF this] show ?thesis by simp
    qed
  qed
qed

lemma sweepLoop_stream:
  "sweepLoop t st as = Inr st' \<Longrightarrow> streamS st = pre @ as \<Longrightarrow> distinct (pre @ as) \<Longrightarrow>
   streamS st' = pre @ keptOf (heapS st) t (currentGreedyChordPCs st) as
   \<and> sameContent (heapS st) (heapS st')"
proof (induction as arbitrary: st pre)
  case Nil
  then show ?case by simp
next
  case (Cons c as)
  from Cons.prems(1) obtain st1 where st1: "sweepStep t st c = Inr st1"
    and loop: "sweepLoop t st1 as = Inr st'"
    by (auto split: sum.splits)
  from st1 obtain p where p: "pcsOf (heapS st c) = Inr p"
    and st1eq: "st1 = (if p \<in> set t \<and> Some p \<noteq> currentGreedyChordPCs st then keepChord st c p else dropChord st c)"
    by (auto simp add: sweepStep_Inr)
  have sc: "sameContent (heapS st) (heapS st1)" using st1 by (rule sweepStep_sameContent)
  show ?case
  proof (cases "p \<in> set t \<and> Some p \<noteq> currentGreedyChordPCs st")
    case True
    with st1eq have s: "streamS st1 = streamS st"
      and cur: "currentGreedyChordPCs st1 = Some p" by simp_all
    from s Cons.prems(2) have "streamS st1 = (pre @ [c]) @ as" by simp
    moreover from Cons.prems(3) have "distinct ((pre @ [c]) @ as)" by simp
    ultimately have "streamS st' = (pre @ [c]) @ keptOf (heapS st1) t (currentGreedyChordPCs st1) as
       \<and> sameContent (heapS st1) (heapS st')"
      using Cons.IH [OF loop] by blast
    with sc True p cur show ?thesis
      by (auto simp add: keptOf_cong [OF sc] intro: sameContent_trans)
  next
    case False
    with st1eq have s: "streamS st1 = remove1 c (streamS st)"
      and cur: "currentGreedyChordPCs st1 = currentGreedyChordPCs st" by auto
    from Cons.prems(3) have "c \<notin> set pre" by auto
    with s Cons.prems(2) have "streamS st1 = pre @ as" by (simp add: remove1_append)
    moreover from Cons.prems(3) have "distinct (pre @ as)" by simp
    ultimately have "streamS st' = pre @ keptOf (heapS st1) t (currentGreedyChordPCs st1) as
       \<and> sameContent (heapS st1) (heapS st')"
      using Cons.IH [OF loop] by blast
    with sc False p cur show ?thesis
      by (auto simp add: keptOf_cong [OF sc] intro: sameContent_trans)
  qed
qed

lemma keptOf_complete:
  "\<forall>a\<in>set as. \<exists>q. pcsOf (h a) = Inr q \<Longrightarrow> p \<in> set t \<Longrightarrow> cur \<noteq> Some p \<Longrightarrow>
   c \<in> set as \<Longrightarrow> pcsOf (h c) = Inr p \<Longrightarrow>
   \<exists>a\<in>set (keptOf h t cur as). pcsOf (h a) = Inr p"
proof (induction as arbitrary: cur)
  case Nil
  then show ?case by simp
next
  case (Cons x as)
  from Cons.prems(1) obtain q where q: "pcsOf (h x) = Inr q" by auto
  show ?case
  proof (cases "q = p")
    case True
    with q Cons.prems show ?thesis by simp
  next
    case False
    with q Cons.prems(4,5) have cin: "c \<in> set as" by auto
    from Cons.prems(1) have all: "\<forall>a\<in>set as. \<exists>q. pcsOf (h a) = Inr q" by simp
    show ?thesis
    proof (cases "q \<in> set t \<and> Some q \<noteq> cur")
      case True
      from False have "Some q \<noteq> Some p" by simp
      from Cons.IH [OF all Cons.prems(2) this cin Cons.prems(5)] q True
      show ?thesis by auto
    next
      case F: False
      from Cons.IH [OF all Cons.prems(2) Cons.prems(3) cin Cons.prems(5)] q F
      show ?thesis by auto
    qed
  qed
qed


lemma dictAdd_set_keys: "fst ` set (dictAdd d p w) = insert p (fst ` set d)"
  by (induction d p w rule: dictAdd.induct) (auto split: if_splits)

lemma dictAdd_nonneg: "nonnegDict d \<Longrightarrow> 0 \<le> w \<Longrightarrow> nonnegDict (dictAdd d p w)"
  by (induction d p w rule: dictAdd.induct) (auto simp add: nonnegDict_def split: if_splits)

lemma dictGet_nonneg: "nonnegDict d \<Longrightarrow> 0 \<le> dictGet d k"
proof (cases "map_of d k")
  case None
  then show ?thesis by (simp add: dictGet_def)
next
  case (Some v)
  assume nn: "nonnegDict d"
  from Some have "(k, v) \<in> set d" by (rule map_of_SomeD)
  then have "v \<in> snd ` set d" by force
  with nn have "0 \<le> v" unfolding nonnegDict_def by blast
  with Some show ?thesis by (simp add: dictGet_def)
qed

lemma computeLoop_keys:
  "computeLoop w n h i as d = Inr d' \<Longrightarrow>
   fst ` set d' = fst ` set d \<union> {p. \<exists>a\<in>set as. pcsOf (h a) = Inr p}
   \<and> (\<forall>a\<in>set as. \<exists>p. pcsOf (h a) = Inr p)"
proof (induction as arbitrary: i d)
  case Nil
  then show ?case by simp
next
  case (Cons c as)
  from Cons.prems obtain p where p: "pcsOf (h c) = Inr p"
    and rest: "computeLoop w n h (Suc i) as (dictAdd d p (w i n (h c))) = Inr d'"
    by (auto split: sum.splits)
  from Cons.IH [OF rest] p show ?case
    by (auto simp add: dictAdd_set_keys)
qed

lemma computeLoop_nonneg:
  "computeLoop w n h i as d = Inr d' \<Longrightarrow> nonnegDict d \<Longrightarrow>
   (\<forall>a\<in>set as. \<forall>j. 0 \<le> w j n (h a)) \<Longrightarrow> nonnegDict d'"
proof (induction as arbitrary: i d)
  case Nil
  then show ?case by simp
next
  case (Cons c as)
  from Cons.prems(1) obtain p where p: "pcsOf (h c) = Inr p"
    and rest: "computeLoop w n h (Suc i) as (dictAdd d p (w i n (h c))) = Inr d'"
    by (auto split: sum.splits)
  from Cons.prems(3) have "0 \<le> w i n (h c)" by simp
  with Cons.prems(2) have "nonnegDict (dictAdd d p (w i n (h c)))" by (rule dictAdd_nonneg)
  from Cons.IH [OF rest this] Cons.prems(3) show ?case by simp
qed

lemma computeLoop_total:
  "\<forall>a\<in>set as. kind (h a) \<noteq> Note \<Longrightarrow> \<exists>d'. computeLoop w n h i as d = Inr d'"
  by (induction as arbitrary: i d) (simp_all add: pcsOf_def)

lemma pcsOf_Inr_iff: "(\<exists>p. pcsOf e = Inr p) \<longleftrightarrow> kind e \<noteq> Note"
  by (simp add: pcsOf_def)

lemma set_dictKeys [simp]: "set (dictKeys slot d) = fst ` set d"
  by (simp add: dictKeys_def)

lemma length_dictKeys [simp]: "length (dictKeys slot d) = length d"
  by (simp add: dictKeys_def)

lemma set_sortedChordWeights [simp]: "set (sortedChordWeights slot d) = fst ` set d"
  by (simp add: sortedChordWeights_def)

lemma length_sortedChordWeights [simp]: "length (sortedChordWeights slot d) = length d"
  by (simp add: sortedChordWeights_def)

lemma set_pySliceTo: "set (pySliceTo xs n) \<subseteq> set xs"
  by (auto simp add: pySliceTo_def dest: in_set_takeD)

lemma maxNChords_subset: "set (maxNChords slot d n) \<subseteq> fst ` set d"
  using set_pySliceTo [of "sortedChordWeights slot d"] by (simp add: maxNChords_def Let_def)

lemma length_maxNChords:
  "0 \<le> n \<Longrightarrow> length (maxNChords slot d n) = min (nat n) (length d)"
  by (auto simp add: maxNChords_def Let_def pySliceTo_def)

lemma trimmed_subset: "set (trimmedMaxChords d maxN t) \<subseteq> set maxN"
  by (auto simp add: trimmedMaxChords_def Let_def dest: set_takeWhileD)

lemma length_trimmed: "length (trimmedMaxChords d maxN t) \<le> length maxN"
  by (simp add: trimmedMaxChords_def Let_def length_takeWhile_le)




lemma trimmed_hd:
  assumes "maxN \<noteq> []" and "0 \<le> dictGet d (hd maxN)" and "t \<le> 1"
  shows "hd maxN \<in> set (trimmedMaxChords d maxN t)"
proof -
  from assms(1) obtain x xs where m: "maxN = x # xs" by (cases maxN) auto
  from assms(2,3) have "dictGet d x * t \<le> dictGet d x * 1"
    unfolding m by (intro mult_left_mono) simp_all
  then show ?thesis by (simp add: trimmedMaxChords_def Let_def m)
qed

lemma sameContent_kind: "sameContent h h' \<Longrightarrow> kind (h' a) = kind (h a)"
  by (simp add: sameContent_def)

lemma sweepLoop_total:
  "\<forall>a\<in>set as. kind (heapS st a) \<noteq> Note \<Longrightarrow> \<exists>st'. sweepLoop t st as = Inr st'"
proof (induction as arbitrary: st)
  case Nil
  then show ?case by simp
next
  case (Cons c as)
  from Cons.prems have "kind (heapS st c) \<noteq> Note" by simp
  then obtain p where p: "pcsOf (heapS st c) = Inr p" by (auto simp add: pcsOf_def)
  then obtain st1 where st1: "sweepStep t st c = Inr st1" by (auto simp add: sweepStep_Inr)
  from st1 have "sameContent (heapS st) (heapS st1)" by (rule sweepStep_sameContent)
  with Cons.prems have "\<forall>a\<in>set as. kind (heapS st1 a) \<noteq> Note"
    by (simp add: sameContent_kind)
  from Cons.IH [OF this] st1 show ?case by simp
qed

lemma sweep_total:
  "\<forall>a\<in>set m. kind (h a) \<noteq> Note \<Longrightarrow> \<exists>r. sweep t h m = Inr r"
proof -
  assume a: "\<forall>a\<in>set m. kind (h a) \<noteq> Note"
  let ?st = "\<lparr>heapS = h, streamS = m, currentGreedyChord = None,
              currentGreedyChordPCs = None, currentGreedyChordNewLength = 0\<rparr>"
  from a have "\<forall>a\<in>set m. kind (heapS ?st a) \<noteq> Note" by simp
  from sweepLoop_total [OF this] obtain st' where "sweepLoop t ?st m = Inr st'" by blast
  then show ?thesis by (simp add: sweep_def split: option.split)
qed

lemma sweep_result:
  assumes "sweep t h m = Inr (h', kept)" and "distinct m"
  shows "kept = keptOf h t None m \<and> sameContent h h'"
proof -
  let ?st = "\<lparr>heapS = h, streamS = m, currentGreedyChord = None,
              currentGreedyChordPCs = None, currentGreedyChordNewLength = 0\<rparr>"
  from assms(1) obtain st' where loop: "sweepLoop t ?st m = Inr st'"
    by (auto simp add: sweep_def split: sum.splits)
  have "streamS ?st = [] @ m" by simp
  moreover from assms(2) have "distinct ([] @ m)" by simp
  ultimately have r: "streamS st' = [] @ keptOf (heapS ?st) t (currentGreedyChordPCs ?st) m
       \<and> sameContent (heapS ?st) (heapS st')"
    by (rule sweepLoop_stream [OF loop])
  from assms(1) loop have k: "kept = streamS st'"
    by (auto simp add: sweep_def split: option.splits)
  from assms(1) loop have "sameContent (heapS st') h'"
    by (auto simp add: sweep_def sameContent_def pitches_def split: option.splits)
  with r k show ?thesis by (auto intro: sameContent_trans)
qed

lemma evenStep_sameContent: "sameContent h (evenStep m h i)"
  by (simp add: evenStep_def Let_def sameContent_def pitches_def)

lemma foldl_evenStep_sameContent: "sameContent h (foldl (evenStep m) h is)"
proof (induction "is" arbitrary: h)
  case Nil
  then show ?case by simp
next
  case (Cons i "is")
  have "sameContent h (evenStep m h i)" by (rule evenStep_sameContent)
  moreover have "sameContent (evenStep m h i) (foldl (evenStep m) (evenStep m h i) is)"
    by (rule Cons.IH)
  ultimately show ?case by (auto intro: sameContent_trans)
qed

lemma evenChordLengths_sameContent: "sameContent h (evenChordLengths h m)"
  by (simp add: evenChordLengths_def foldl_evenStep_sameContent)

lemma measureNotes_facts:
  assumes "measureNotes s0 m = (s, v)"
  shows "elems s = elems s0" and "streams s v = notesOf (elems s0) (streams s0 m)"
    and "nextStream s0 \<le> v" and "\<forall>k<nextStream s0. streams s k = streams s0 k"
    and "nextElem s = nextElem s0"
  using assms
  by (auto simp add: measureNotes_def flat_def notesStream_def Let_def split: if_splits)

lemma keptPCs_sameContent: "sameContent h h' \<Longrightarrow> keptPCs h' es = keptPCs h es"
  by (simp add: keptPCs_def notesOf_def sameContent_kind sameContent_pcsOf)

lemma keptPCs_keptOf:
  assumes chords: "\<forall>a\<in>set m. kind (h a) = Chord"
    and sub: "set t \<subseteq> {p. \<exists>a\<in>set m. pcsOf (h a) = Inr p}"
  shows "keptPCs h (keptOf h t None m) = set t"
proof
  show "keptPCs h (keptOf h t None m) \<subseteq> set t"
    by (auto simp add: keptPCs_def notesOf_def dest: keptOf_subset)
next
  show "set t \<subseteq> keptPCs h (keptOf h t None m)"
  proof
    fix p assume p: "p \<in> set t"
    with sub obtain c where c: "c \<in> set m" "pcsOf (h c) = Inr p" by auto
    from chords have all: "\<forall>a\<in>set m. \<exists>q. pcsOf (h a) = Inr q" by (simp add: pcsOf_def)
    have "None \<noteq> Some p" by simp
    from keptOf_complete [OF all p this c] obtain a
      where a: "a \<in> set (keptOf h t None m)" "pcsOf (h a) = Inr p" by blast
    from a(1) have "a \<in> set m" by (auto dest: keptOf_subset)
    with chords have "kind (h a) = Chord" by simp
    with a show "p \<in> keptPCs h (keptOf h t None m)"
      by (auto simp add: keptPCs_def notesOf_def)
  qed
qed

lemma computeWeights_keys:
  assumes "computeMeasureChordWeights h m w = Inr d"
  shows "fst ` set d = {p. \<exists>a\<in>set m. pcsOf (h a) = Inr p}"
    and "\<forall>a\<in>set m. kind (h a) \<noteq> Note"
proof -
  from assms have l: "computeLoop (weightOf w) (length m) h 0 m [] = Inr d"
    by (simp add: computeMeasureChordWeights_def)
  from computeLoop_keys [OF l] show "fst ` set d = {p. \<exists>a\<in>set m. pcsOf (h a) = Inr p}"
    by simp
  from computeLoop_keys [OF l] have "\<forall>a\<in>set m. \<exists>p. pcsOf (h a) = Inr p" by simp
  then show "\<forall>a\<in>set m. kind (h a) \<noteq> Note" by (auto simp add: pcsOf_def split: if_splits)
qed

lemma computeWeights_nonneg:
  assumes "computeMeasureChordWeights h m w = Inr d"
    and "\<forall>a\<in>set m. \<forall>j k. 0 \<le> weightOf w j k (h a)"
  shows "nonnegDict d"
proof -
  from assms(1) have l: "computeLoop (weightOf w) (length m) h 0 m [] = Inr d"
    by (simp add: computeMeasureChordWeights_def)
  have "nonnegDict []" by (simp add: nonnegDict_def)
  moreover from assms(2) have "\<forall>a\<in>set m. \<forall>j. 0 \<le> weightOf w j (length m) (h a)" by simp
  ultimately show ?thesis by (rule computeLoop_nonneg [OF l])
qed

lemma computeWeights_total:
  "\<forall>a\<in>set m. kind (h a) \<noteq> Note \<Longrightarrow> \<exists>d. computeMeasureChordWeights h m w = Inr d"
  by (simp add: computeMeasureChordWeights_def computeLoop_total)



lemma reduceNotes_Inr:
  assumes "reduceNotes slot s v n w t = Inr (s', v')"
  shows "\<exists>d. computeMeasureChordWeights (elems s) (streams s v) w = Inr d \<and> v' = v \<and>
     (if maxNChords slot d n = [] then s' = replaceByRest s v
      else \<exists>h kept. sweep (trimmedMaxChords d (maxNChords slot d n) t) (elems s) (streams s v)
                       = Inr (h, kept)
             \<and> s' = s\<lparr>elems := evenChordLengths h kept, streams := (streams s)(v := kept)\<rparr>)"
  using assms
  by (auto simp add: reduceNotes_def Let_def split: sum.splits if_splits)

lemma reduceNotes_total:
  assumes "computeMeasureChordWeights (elems s) (streams s v) w = Inr d"
  shows "\<exists>r. reduceNotes slot s v n w t = Inr r"
proof -
  from computeWeights_keys(2) [OF assms]
  obtain r where "sweep (trimmedMaxChords d (maxNChords slot d n) t) (elems s) (streams s v) = Inr r"
    using sweep_total by blast
  with assms show ?thesis
    by (cases r) (simp add: reduceNotes_def Let_def)
qed

lemma keptPCs_replaceByRest [simp]:
  "keptPCs (elems (replaceByRest s v)) (streams (replaceByRest s v) v) = {}"
  by (simp add: replaceByRest_def Let_def keptPCs_def notesOf_def newRest_def)

lemma reduceNotes_keptPCs:
  assumes r: "reduceNotes slot s v n w t = Inr (s', v')"
    and dist: "distinct (streams s v)"
    and nts: "\<forall>a\<in>set (streams s v). kind (elems s a) = Note \<or> kind (elems s a) = Chord"
  shows "\<exists>d. computeMeasureChordWeights (elems s) (streams s v) w = Inr d \<and> v' = v \<and>
     keptPCs (elems s') (streams s' v) =
       (if maxNChords slot d n = [] then {}
        else set (trimmedMaxChords d (maxNChords slot d n) t))"
proof -
  from reduceNotes_Inr [OF r] obtain d where
    d: "computeMeasureChordWeights (elems s) (streams s v) w = Inr d" and v: "v' = v"
    and c: "if maxNChords slot d n = [] then s' = replaceByRest s v
      else \<exists>h kept. sweep (trimmedMaxChords d (maxNChords slot d n) t) (elems s) (streams s v)
                       = Inr (h, kept)
             \<and> s' = s\<lparr>elems := evenChordLengths h kept, streams := (streams s)(v := kept)\<rparr>"
    by blast
  let ?maxN = "maxNChords slot d n"
  let ?t = "trimmedMaxChords d ?maxN t"
  have "keptPCs (elems s') (streams s' v) = (if ?maxN = [] then {} else set ?t)"
  proof (cases "?maxN = []")
    case True
    with c show ?thesis by simp
  next
    case False
    with c obtain h kept where sw: "sweep ?t (elems s) (streams s v) = Inr (h, kept)"
      and s': "s' = s\<lparr>elems := evenChordLengths h kept, streams := (streams s)(v := kept)\<rparr>"
      by auto
    from sweep_result [OF sw dist] have kept: "kept = keptOf (elems s) ?t None (streams s v)"
      and sc: "sameContent (elems s) h" by simp_all
    from sc evenChordLengths_sameContent [of h kept]
    have sc2: "sameContent (elems s) (evenChordLengths h kept)" by (rule sameContent_trans)
    have sub: "set ?t \<subseteq> {p. \<exists>a\<in>set (streams s v). pcsOf (elems s a) = Inr p}"
      using trimmed_subset [of d ?maxN t] maxNChords_subset [of slot d n]
        computeWeights_keys(1) [OF d] by blast
    have chords: "\<forall>a\<in>set (streams s v). kind (elems s a) = Chord"
      using nts computeWeights_keys(2) [OF d] by blast
    have "keptPCs (elems s') (streams s' v) = keptPCs (elems s) kept"
      using s' by (simp add: keptPCs_sameContent [OF sc2])
    also have "\<dots> = set ?t"
      unfolding kept using chords sub by (rule keptPCs_keptOf)
    finally show ?thesis using False by simp
  qed
  with d v show ?thesis by blast
qed

lemma measureNotes_view:
  assumes "measureNotes s0 m = (s, v)" and "distinct (streams s0 m)"
  shows "distinct (streams s v)"
    and "\<forall>a\<in>set (streams s v). kind (elems s a) = Note \<or> kind (elems s a) = Chord"
  using measureNotes_facts(1,2) [OF assms(1)] assms(2)
  by (auto simp add: notesOf_def)

lemma keptPCs_notesOf [simp]: "keptPCs h (notesOf h es) = keptPCs h es"
  by (simp add: keptPCs_def notesOf_def)


subsection \<open>The chord collapser: claims on the selection\<close>


lemma weights_nonneg:
  assumes "0 \<le> quarterLength c" and "0 \<le> beatStrength c"
  shows "0 \<le> quarterLengthOnly j k c" and "0 \<le> quarterLengthBeatStrength j k c"
    and "0 \<le> quarterLengthBeatStrengthMeasurePosition j k c" and "0 \<le> qlbsmpConsonance j k c"
  using assms
  by (simp_all add: quarterLengthOnly_def quarterLengthBeatStrength_def
      quarterLengthBeatStrengthMeasurePosition_def qlbsmpConsonance_def Let_def)



text \<open>
  C6 (as stated, refuted). With the dictionary yielding its keys in order of insertion
  (the constant \<open>slot\<close>), two chords of equal weight are ranked as they come: of G and C
  the greater pitch-class set (7) comes first and alone enters the top one, of C and
  C sharp the smaller (0) does. No order of the pitch-class sets decides both.
\<close>

theorem C6_ties_counterexample:
  "computeMeasureChordWeights threeChords [0, 1] None = Inr [([7], 1), ([0], 1)]
   \<and> maxNChords (\<lambda>_. 0) [([7], 1), ([0], 1)] 1 = [[7]]
   \<and> computeMeasureChordWeights threeChords [1, 2] None = Inr [([0], 1), ([1], 1)]
   \<and> maxNChords (\<lambda>_. 0) [([0], 1), ([1], 1)] 1 = [[0]]"
  by code_simp

text \<open>
  C6 (amended). The ranking is sorted by descending weight, and pitch-class sets of equal
  weight stand in it in the order in which the dictionary yields them; the dictionary
  yields its keys by slot, keys of one slot in order of insertion.
\<close>

theorem C6_ties_in_dictionary_order:
  "filter (\<lambda>k. dictGet d k = x) (sortedChordWeights slot d)
     = filter (\<lambda>k. dictGet d k = x) (dictKeys slot d)
   \<and> filter (\<lambda>k. slot k = i) (dictKeys slot d) = filter (\<lambda>k. slot k = i) (map fst d)
   \<and> sorted (map (\<lambda>k. - dictGet d k) (sortedChordWeights slot d))"
proof -
  have "filter (\<lambda>k. - dictGet d k = - x) (sort_key (\<lambda>k. - dictGet d k) (dictKeys slot d))
     = filter (\<lambda>k. - dictGet d k = - x) (dictKeys slot d)"
    by (rule sort_key_stable)
  then have "filter (\<lambda>k. dictGet d k = x) (sortedChordWeights slot d)
     = filter (\<lambda>k. dictGet d k = x) (dictKeys slot d)"
    by (simp add: sortedChordWeights_def)
  moreover have "filter (\<lambda>k. slot k = i) (dictKeys slot d) = filter (\<lambda>k. slot k = i) (map fst d)"
    unfolding dictKeys_def by (rule sort_key_stable)
  moreover have "sorted (map (\<lambda>k. - dictGet d k) (sortedChordWeights slot d))"
    by (simp add: sortedChordWeights_def)
  ultimately show ?thesis by simp
qed

text \<open>
  C3, at a measure that holds one rest of four quarters: no pitch-class set exists, and the
  call returns a stream with a single rest, but the rest's quarter length is 0, the
  duration of the empty stream of notes, while the measure lasts 4 quarters.
\<close>

theorem C3_rest_measure:
  "returnedEvents (reduceMeasureToNChords (\<lambda>_. 0) restMeasure 0 3 (Some qlbsmpConsonance) (1 / 4))
     = Inr [newRest 0]
   \<and> quarterLength (newRest 0) = 0
   \<and> highestTime (elems restMeasure) (streams restMeasure 0) = 4"
  by code_simp

text \<open>
  The other half of C3 holds: the returned stream has at most \<open>numChords\<close> distinct
  pitch-class sets and at least one event.
\<close>

lemma reduce_chord_count:
  assumes dist: "distinct (streams s0 m)"
    and nonneg: "\<forall>a\<in>set (streams s0 m). \<forall>j k. 0 \<le> weightOf w j k (elems s0 a)"
    and n0: "0 \<le> n" and t1: "t \<le> 1"
    and r: "reduceMeasureToNChords slot s0 m n w t = Inr (s', v')"
  shows "card (keptPCs (elems s') (streams s' v')) \<le> nat n \<and> streams s' v' \<noteq> []"
proof -
  obtain s v where mn: "measureNotes s0 m = (s, v)" by (cases "measureNotes s0 m") auto
  note view = measureNotes_view [OF mn dist]
  note facts = measureNotes_facts(1,2) [OF mn]
  from r have red: "reduceNotes slot s v n w t = Inr (s', v')"
    by (simp add: reduceMeasureToNChords_def mn)
  have nn: "\<forall>a\<in>set (streams s v). \<forall>j k. 0 \<le> weightOf w j k (elems s a)"
    using nonneg facts by (simp add: notesOf_def)
  from reduceNotes_keptPCs [OF red view] obtain d where
    d: "computeMeasureChordWeights (elems s) (streams s v) w = Inr d" and v': "v' = v"
    and k: "keptPCs (elems s') (streams s' v) =
       (if maxNChords slot d n = [] then {}
        else set (trimmedMaxChords d (maxNChords slot d n) t))" by blast
  let ?maxN = "maxNChords slot d n"
  let ?t = "trimmedMaxChords d ?maxN t"
  have "card (set ?t) \<le> length ?t" by (rule card_length)
  also have "\<dots> \<le> length ?maxN" by (rule length_trimmed)
  also have "\<dots> \<le> nat n" using length_maxNChords [OF n0, of slot d] by simp
  finally have c: "card (set ?t) \<le> nat n" .
  have ne: "streams s' v \<noteq> []"
  proof (cases "?maxN = []")
    case True
    with reduceNotes_Inr [OF red] d show ?thesis
      by (auto simp add: replaceByRest_def Let_def)
  next
    case False
    have "nonnegDict d" using d nn by (rule computeWeights_nonneg)
    then have "0 \<le> dictGet d (hd ?maxN)" by (rule dictGet_nonneg)
    with False have "hd ?maxN \<in> set ?t" using t1 by (rule trimmed_hd)
    with k False have "keptPCs (elems s') (streams s' v) \<noteq> {}" by auto
    then show ?thesis by (auto simp add: keptPCs_def notesOf_def)
  qed
  from k c ne v' show ?thesis by (auto split: if_splits)
qed

subsection \<open>The chord collapser: what is mutated\<close>

lemma unchangedOutside_refl [simp]: "unchangedOutside S h h"
  by (simp add: unchangedOutside_def)




lemma onlyTimingAndTies_refl [simp]: "onlyTimingAndTies h h"
  by (simp add: onlyTimingAndTies_def)


















subsection \<open>The chord collapser: conservation of duration\<close>

lemma sumQL_cong:
  "\<forall>a\<in>set es. quarterLength (h' a) = quarterLength (h a) \<Longrightarrow> sumQL h' es = sumQL h es"
  by (induction es) (simp_all add: sumQL_def)

lemma sumQL_simps [simp]:
  "sumQL h [] = 0" "sumQL h (a # es) = quarterLength (h a) + sumQL h es"
  "sumQL h (es @ fs) = sumQL h es + sumQL h fs"
  by (simp_all add: sumQL_def)

lemma contiguousFrom_cong:
  "\<forall>a\<in>set es. quarterLength (h' a) = quarterLength (h a) \<and> offset (h' a) = offset (h a) \<Longrightarrow>
   contiguousFrom h' t es = contiguousFrom h t es"
  by (induction es arbitrary: t) simp_all

lemma contiguousFrom_end:
  "contiguousFrom h t es \<Longrightarrow> t \<le> t + sumQL h es"
proof (induction es arbitrary: t)
  case Nil
  then show ?case by simp
next
  case (Cons a es)
  from Cons.prems have "contiguousFrom h (t + quarterLength (h a)) es" and "0 \<le> quarterLength (h a)"
    by simp_all
  with Cons.IH [of "t + quarterLength (h a)"] show ?case by simp
qed

lemma highestTime_contiguous_aux:
  "contiguousFrom h t es \<Longrightarrow> x \<le> t \<Longrightarrow>
   fold (\<lambda>a m. max m (offset (h a) + quarterLength (h a))) es x = (if es = [] then x else t + sumQL h es)"
proof (induction es arbitrary: t x)
  case Nil
  then show ?case by simp
next
  case (Cons a es)
  from Cons.prems have o: "offset (h a) = t" and q: "0 \<le> quarterLength (h a)"
    and c: "contiguousFrom h (t + quarterLength (h a)) es" by simp_all
  from Cons.prems(2) q have m: "max x (t + quarterLength (h a)) = t + quarterLength (h a)" by simp
  have "t + quarterLength (h a) \<le> t + quarterLength (h a)" by simp
  from Cons.IH [OF c this] o m show ?case by (simp add: add.assoc)
qed

lemma highestTime_contiguous:
  "contiguousFrom h t es \<Longrightarrow> 0 \<le> t \<Longrightarrow> highestTime h es = (if es = [] then 0 else t + sumQL h es)"
  unfolding highestTime_def by (rule highestTime_contiguous_aux)

lemma keepChord_heap_other:
  "a \<noteq> c \<Longrightarrow> Some a \<noteq> currentGreedyChord st \<Longrightarrow> heapS (keepChord st c p) a = heapS st a"
  by (auto simp add: keepChord_def closePrevious_def Let_def split: option.splits)

lemma keepChord_ql_c:
  "currentGreedyChord st \<noteq> Some c \<Longrightarrow>
   quarterLength (heapS (keepChord st c p) c) = quarterLength (heapS st c)"
  by (auto simp add: keepChord_def closePrevious_def Let_def split: option.splits)

lemma keepChord_ql_prev:
  "currentGreedyChord st = Some g \<Longrightarrow> g \<noteq> c \<Longrightarrow>
   quarterLength (heapS (keepChord st c p) g) = currentGreedyChordNewLength st"
  by (simp add: keepChord_def closePrevious_def Let_def)

lemma keepChord_newLength:
  "currentGreedyChord st \<noteq> Some c \<Longrightarrow>
   currentGreedyChordNewLength (keepChord st c p) =
     (if currentGreedyChord st = None
      then (if offset (heapS st c) \<noteq> 0 then offset (heapS st c) else currentGreedyChordNewLength st)
      else 0) + quarterLength (heapS st c)"
  by (auto simp add: keepChord_def closePrevious_def Let_def split: option.splits)

lemma sweepInv_drop:
  assumes inv: "sweepInv t0 st \<tau> pre (c # as)"
  shows "sweepInv t0 (dropChord st c) (\<tau> + quarterLength (heapS st c)) pre as"
proof -
  from inv have s: "streamS st = pre @ c # as" and d: "distinct (pre @ c # as)"
    and c: "contiguousFrom (heapS st) \<tau> (c # as)" and t: "0 \<le> t0" "t0 \<le> \<tau>"
    by (simp_all add: sweepInv_def)
  from d have "c \<notin> set pre" by auto
  with s have s': "streamS (dropChord st c) = pre @ as" by (simp add: remove1_append)
  from c have q: "0 \<le> quarterLength (heapS st c)"
    and c': "contiguousFrom (heapS st) (\<tau> + quarterLength (heapS st c)) as" by simp_all
  from inv have "case currentGreedyChord st of
            None \<Rightarrow> pre = [] \<and> currentGreedyChordNewLength st = \<tau> - t0
          | Some g \<Rightarrow> pre \<noteq> [] \<and> g = last pre
              \<and> sumQL (heapS st) (butlast pre) + currentGreedyChordNewLength st = \<tau>"
    by (simp add: sweepInv_def)
  then have "case currentGreedyChord (dropChord st c) of
            None \<Rightarrow> pre = [] \<and> currentGreedyChordNewLength (dropChord st c)
                       = \<tau> + quarterLength (heapS st c) - t0
          | Some g \<Rightarrow> pre \<noteq> [] \<and> g = last pre
              \<and> sumQL (heapS (dropChord st c)) (butlast pre)
                  + currentGreedyChordNewLength (dropChord st c) = \<tau> + quarterLength (heapS st c)"
    by (auto split: option.splits)
  with s' d c' t q show ?thesis by (simp add: sweepInv_def)
qed

lemma sweepInv_keep:
  assumes inv: "sweepInv t0 st \<tau> pre (c # as)"
  shows "sweepInv t0 (keepChord st c p) (\<tau> + quarterLength (heapS st c)) (pre @ [c]) as"
proof -
  let ?st' = "keepChord st c p"
  from inv have s: "streamS st = pre @ c # as" and d: "distinct (pre @ c # as)"
    and c: "contiguousFrom (heapS st) \<tau> (c # as)" and t: "0 \<le> t0" "t0 \<le> \<tau>"
    and cur: "case currentGreedyChord st of
            None \<Rightarrow> pre = [] \<and> currentGreedyChordNewLength st = \<tau> - t0
          | Some g \<Rightarrow> pre \<noteq> [] \<and> g = last pre
              \<and> sumQL (heapS st) (butlast pre) + currentGreedyChordNewLength st = \<tau>"
    by (simp_all add: sweepInv_def)
  from c have o: "offset (heapS st c) = \<tau>" and q: "0 \<le> quarterLength (heapS st c)"
    and c': "contiguousFrom (heapS st) (\<tau> + quarterLength (heapS st c)) as" by simp_all
  from d have cpre: "c \<notin> set pre" and cas: "c \<notin> set as" and das: "set pre \<inter> set as = {}" by auto
  have curc: "currentGreedyChord st \<noteq> Some c"
  proof
    assume "currentGreedyChord st = Some c"
    with cur have "pre \<noteq> []" "c = last pre" by simp_all
    then have "c \<in> set pre" by simp
    with cpre show False by simp
  qed
  have curas: "\<forall>a\<in>set as. Some a \<noteq> currentGreedyChord st"
  proof
    fix a assume a: "a \<in> set as"
    show "Some a \<noteq> currentGreedyChord st"
    proof
      assume "Some a = currentGreedyChord st"
      then have e: "currentGreedyChord st = Some a" by simp
      with cur have "pre \<noteq> []" "a = last pre" by simp_all
      then have "a \<in> set pre" by simp
      with a das show False by auto
    qed
  qed
  have rest: "\<forall>a\<in>set as. heapS ?st' a = heapS st a"
    using cas curas by (auto intro: keepChord_heap_other)
  then have "contiguousFrom (heapS ?st') (\<tau> + quarterLength (heapS st c)) as
     = contiguousFrom (heapS st) (\<tau> + quarterLength (heapS st c)) as"
    by (intro contiguousFrom_cong) simp
  with c' have c'': "contiguousFrom (heapS ?st') (\<tau> + quarterLength (heapS st c)) as" by simp
  have s': "streamS ?st' = (pre @ [c]) @ as" using s by simp
  have d': "distinct ((pre @ [c]) @ as)" using d by simp
  have t': "t0 \<le> \<tau> + quarterLength (heapS st c)" using t q by simp
  have main: "sumQL (heapS ?st') pre + currentGreedyChordNewLength ?st' = \<tau> + quarterLength (heapS st c)"
  proof (cases "currentGreedyChord st")
    case None
    with cur have pre: "pre = []" and nl: "currentGreedyChordNewLength st = \<tau> - t0" by simp_all
    show ?thesis
    proof (cases "\<tau> = 0")
      case True
      with t have "t0 = 0" by simp
      with None pre nl o True keepChord_newLength [OF curc, of p] show ?thesis by simp
    next
      case False
      with None pre o keepChord_newLength [OF curc, of p] show ?thesis by simp
    qed
  next
    case (Some g)
    with cur have pne: "pre \<noteq> []" and g: "g = last pre"
      and sum: "sumQL (heapS st) (butlast pre) + currentGreedyChordNewLength st = \<tau>" by simp_all
    from pne g have gin: "g \<in> set pre" by simp
    with cpre have gc: "g \<noteq> c" by auto
    from pne g have split: "pre = butlast pre @ [g]" by simp
    from d have "distinct pre" by simp
    with split have "distinct (butlast pre @ [g])" by metis
    then have gnot: "g \<notin> set (butlast pre)" by simp
    have "\<forall>a\<in>set (butlast pre). heapS ?st' a = heapS st a"
    proof
      fix a assume a: "a \<in> set (butlast pre)"
      then have "a \<in> set pre" by (rule in_set_butlastD)
      with cpre have "a \<noteq> c" by auto
      moreover from a gnot have "Some a \<noteq> currentGreedyChord st" using Some by auto
      ultimately show "heapS ?st' a = heapS st a" by (rule keepChord_heap_other)
    qed
    then have "sumQL (heapS ?st') (butlast pre) = sumQL (heapS st) (butlast pre)"
      by (intro sumQL_cong) simp
    moreover have "quarterLength (heapS ?st' g) = currentGreedyChordNewLength st"
      using Some gc by (rule keepChord_ql_prev)
    moreover have "sumQL (heapS ?st') pre = sumQL (heapS ?st') (butlast pre) + quarterLength (heapS ?st' g)"
      by (subst split) simp
    moreover have "currentGreedyChordNewLength ?st' = quarterLength (heapS st c)"
      using keepChord_newLength [OF curc, of p] Some by simp
    ultimately show ?thesis using sum by simp
  qed
  from s' d' c'' t t' main show ?thesis
    by (simp add: sweepInv_def)
qed

lemma sweepInv_keep_rest:
  assumes inv: "sweepInv t0 st \<tau> pre (c # as)"
  shows "\<forall>a\<in>set as. heapS (keepChord st c p) a = heapS st a"
proof
  fix a assume a: "a \<in> set as"
  from inv have d: "distinct (pre @ c # as)"
    and cur: "case currentGreedyChord st of
            None \<Rightarrow> pre = [] \<and> currentGreedyChordNewLength st = \<tau> - t0
          | Some g \<Rightarrow> pre \<noteq> [] \<and> g = last pre
              \<and> sumQL (heapS st) (butlast pre) + currentGreedyChordNewLength st = \<tau>"
    by (simp_all add: sweepInv_def)
  from d a have ac: "a \<noteq> c" and apre: "a \<notin> set pre" by auto
  have "Some a \<noteq> currentGreedyChord st"
  proof
    assume "Some a = currentGreedyChord st"
    then have "currentGreedyChord st = Some a" by simp
    with cur have "pre \<noteq> []" "a = last pre" by simp_all
    then have "a \<in> set pre" by simp
    with apre show False by simp
  qed
  with ac show "heapS (keepChord st c p) a = heapS st a" by (rule keepChord_heap_other)
qed

lemma sweepLoop_inv:
  "sweepInv t0 st \<tau> pre as \<Longrightarrow> sweepLoop t st as = Inr st' \<Longrightarrow>
   \<exists>pre'. sweepInv t0 st' (\<tau> + sumQL (heapS st) as) pre' []"
proof (induction as arbitrary: st \<tau> pre)
  case Nil
  then show ?case by auto
next
  case (Cons c as)
  from Cons.prems(2) obtain st1 where st1: "sweepStep t st c = Inr st1"
    and loop: "sweepLoop t st1 as = Inr st'"
    by (auto split: sum.splits)
  from st1 obtain p where
    st1eq: "st1 = (if p \<in> set t \<and> Some p \<noteq> currentGreedyChordPCs st then keepChord st c p else dropChord st c)"
    by (auto simp add: sweepStep_Inr)
  let ?\<tau> = "\<tau> + quarterLength (heapS st c)"
  have "\<exists>pre1. sweepInv t0 st1 ?\<tau> pre1 as \<and> (\<forall>a\<in>set as. heapS st1 a = heapS st a)"
  proof (cases "p \<in> set t \<and> Some p \<noteq> currentGreedyChordPCs st")
    case True
    with st1eq have "st1 = keepChord st c p" by simp
    with sweepInv_keep [OF Cons.prems(1), of p] sweepInv_keep_rest [OF Cons.prems(1), of p]
    show ?thesis by blast
  next
    case False
    with st1eq have "st1 = dropChord st c" by simp
    with sweepInv_drop [OF Cons.prems(1)] show ?thesis by auto
  qed
  then obtain pre1 where inv1: "sweepInv t0 st1 ?\<tau> pre1 as"
    and same: "\<forall>a\<in>set as. heapS st1 a = heapS st a" by blast
  from same have "sumQL (heapS st1) as = sumQL (heapS st) as" by (intro sumQL_cong) simp
  with Cons.IH [OF inv1 loop] show ?case by (simp add: add.assoc)
qed

lemma sweep_sum:
  assumes sw: "sweep t h m = Inr (h', kept)" and dist: "distinct m"
    and cont: "contiguousFrom h t0 m" and t0: "0 \<le> t0" and ne: "kept \<noteq> []"
  shows "sumQL h' kept = t0 + sumQL h m"
proof -
  let ?st = "\<lparr>heapS = h, streamS = m, currentGreedyChord = None,
              currentGreedyChordPCs = None, currentGreedyChordNewLength = 0\<rparr>"
  from sw obtain st' where loop: "sweepLoop t ?st m = Inr st'"
    by (auto simp add: sweep_def split: sum.splits)
  have "sweepInv t0 ?st t0 [] m" using dist cont t0 by (simp add: sweepInv_def)
  from sweepLoop_inv [OF this loop] obtain pre where inv: "sweepInv t0 st' (t0 + sumQL h m) pre []"
    by auto
  from sw loop have kept: "kept = streamS st'"
    by (auto simp add: sweep_def split: option.splits)
  from inv have pre: "streamS st' = pre" and dpre: "distinct pre" by (simp_all add: sweepInv_def)
  with kept ne have pne: "pre \<noteq> []" by simp
  with inv obtain g where g: "currentGreedyChord st' = Some g" "g = last pre"
    and sum: "sumQL (heapS st') (butlast pre) + currentGreedyChordNewLength st' = t0 + sumQL h m"
    by (cases "currentGreedyChord st'") (auto simp add: sweepInv_def)
  from sw loop g have h': "h' = (heapS st')(g := (heapS st' g)\<lparr>quarterLength := currentGreedyChordNewLength st'\<rparr>)"
    by (simp add: sweep_def)
  from pne g have split: "pre = butlast pre @ [g]" by simp
  with dpre have "distinct (butlast pre @ [g])" by metis
  then have gnot: "g \<notin> set (butlast pre)" by simp
  then have "\<forall>a\<in>set (butlast pre). quarterLength (h' a) = quarterLength (heapS st' a)"
    by (auto simp add: h')
  then have "sumQL h' (butlast pre) = sumQL (heapS st') (butlast pre)" by (rule sumQL_cong)
  moreover have "sumQL h' pre = sumQL h' (butlast pre) + quarterLength (h' g)"
    by (subst split) simp
  moreover have "quarterLength (h' g) = currentGreedyChordNewLength st'" by (simp add: h')
  ultimately show ?thesis using sum kept pre by simp
qed

lemma sum_list_shift:
  fixes g g' :: "nat \<Rightarrow> rat"
  assumes d: "distinct xs" and l: "l \<in> set xs" and c: "c \<in> set xs" and lc: "l \<noteq> c"
    and gl: "g' l = g l - f" and gc: "g' c = g c + f"
    and other: "\<forall>a. a \<noteq> l \<and> a \<noteq> c \<longrightarrow> g' a = g a"
  shows "sum_list (map g' xs) = sum_list (map g xs)"
proof -
  let ?S = "set xs - {l, c}"
  have S: "set xs = insert l (insert c ?S)" using l c by auto
  have fin: "finite ?S" by simp
  have nl: "l \<notin> insert c ?S" using lc by simp
  have nc: "c \<notin> ?S" by simp
  have "sum g' (set xs) = g' l + (g' c + sum g' ?S)"
    by (subst S) (simp add: sum.insert [OF _ nl] sum.insert [OF fin nc])
  also have "sum g' ?S = sum g ?S" using other by (intro sum.cong) auto
  also have "g' l + (g' c + sum g ?S) = g l + (g c + sum g ?S)" using gl gc by simp
  also have "\<dots> = sum g (set xs)"
    by (subst (2) S) (simp add: sum.insert [OF _ nl] sum.insert [OF fin nc])
  finally have "sum g' (set xs) = sum g (set xs)" .
  with d show ?thesis by (simp add: sum_list_distinct_conv_sum_set)
qed

lemma evenStep_sum:
  assumes d: "distinct m" and i: "0 < i" "i < length m"
  shows "sumQL (evenStep m h i) m = sumQL h m"
proof -
  let ?c = "m ! i" and ?l = "m ! (i - 1)"
  let ?f = "offset (h ?c) - of_int (pyInt (offset (h ?c)))"
  from i have c: "?c \<in> set m" and l: "?l \<in> set m" by simp_all
  from d i have lc: "?l \<noteq> ?c" by (simp add: nth_eq_iff_index_eq)
  show ?thesis
  proof (cases "pyRound3 ?f \<in> set [1 / 4, 1 / 8, 333 / 1000, 63 / 1000, 62 / 1000]")
    case False
    then show ?thesis by (simp add: evenStep_def Let_def)
  next
    case True
    let ?h = "evenStep m h i"
    from True lc have gl: "quarterLength (?h ?l) = quarterLength (h ?l) - ?f"
      and gc: "quarterLength (?h ?c) = quarterLength (h ?c) + ?f"
      and other: "\<forall>a. a \<noteq> ?l \<and> a \<noteq> ?c \<longrightarrow> quarterLength (?h a) = quarterLength (h a)"
      by (simp_all add: evenStep_def Let_def)
    from sum_list_shift [OF d l c lc gl gc other] show ?thesis by (simp add: sumQL_def)
  qed
qed

lemma foldl_evenStep_sum:
  "distinct m \<Longrightarrow> \<forall>i\<in>set is. 0 < i \<and> i < length m \<Longrightarrow>
   sumQL (foldl (evenStep m) h is) m = sumQL h m"
proof (induction "is" arbitrary: h)
  case Nil
  then show ?case by simp
next
  case (Cons i "is")
  from Cons.prems have i: "0 < i" "i < length m" and r: "\<forall>i\<in>set is. 0 < i \<and> i < length m"
    by simp_all
  from Cons.IH [OF Cons.prems(1) r, of "evenStep m h i"] evenStep_sum [OF Cons.prems(1) i, of h]
  show ?case by simp
qed

lemma evenChordLengths_sum: "distinct m \<Longrightarrow> sumQL (evenChordLengths h m) m = sumQL h m"
  using foldl_evenStep_sum [of m "[1..<length m]" h] by (simp add: evenChordLengths_def)

lemma fold_max_le:
  fixes f :: "nat \<Rightarrow> rat"
  shows "\<forall>a\<in>set es. f a \<le> X \<Longrightarrow> x \<le> X \<Longrightarrow> fold (\<lambda>a m. max m (f a)) es x \<le> X"
  by (induction es arbitrary: x) simp_all

lemma fold_max_ge:
  fixes f :: "nat \<Rightarrow> rat"
  shows "x \<le> fold (\<lambda>a m. max m (f a)) es x
       \<and> (\<forall>a\<in>set es. f a \<le> fold (\<lambda>a m. max m (f a)) es x)"
proof (induction es arbitrary: x)
  case Nil
  then show ?case by simp
next
  case (Cons a es)
  from Cons.IH [of "max x (f a)"] show ?case by (auto simp add: max_def split: if_splits)
qed

lemma highestTime_notesOf:
  assumes "\<forall>a\<in>set es. offset (h a) + quarterLength (h a) \<le> highestTime h (notesOf h es)"
  shows "highestTime h es = highestTime h (notesOf h es)"
proof (rule antisym)
  have "0 \<le> highestTime h (notesOf h es)"
    unfolding highestTime_def using fold_max_ge [of 0 "\<lambda>a. offset (h a) + quarterLength (h a)"] by blast
  with assms show "highestTime h es \<le> highestTime h (notesOf h es)"
    unfolding highestTime_def [of h es] by (intro fold_max_le) simp_all
next
  have "\<forall>a\<in>set (notesOf h es). offset (h a) + quarterLength (h a) \<le> highestTime h es"
    unfolding highestTime_def notesOf_def
    using fold_max_ge [of 0 "\<lambda>a. offset (h a) + quarterLength (h a)" es] by simp
  moreover have "0 \<le> highestTime h es"
    unfolding highestTime_def using fold_max_ge [of 0 "\<lambda>a. offset (h a) + quarterLength (h a)"] by blast
  ultimately show "highestTime h (notesOf h es) \<le> highestTime h es"
    unfolding highestTime_def [of h "notesOf h es"] by (intro fold_max_le) simp_all
qed

lemma distinct_keptOf: "distinct as \<Longrightarrow> distinct (keptOf h t cur as)"
proof (induction as arbitrary: cur)
  case Nil
  then show ?case by simp
next
  case (Cons c as)
  from Cons.prems have c: "c \<notin> set as" and d: "distinct as" by simp_all
  from c have "c \<notin> set (keptOf h t cur' as)" for cur' by (auto dest: keptOf_subset)
  with Cons.IH [OF d] show ?case by (simp split: sum.splits)
qed

lemma reduceNotes_sum:
  assumes r: "reduceNotes slot s v n w t = Inr (s', v')"
    and dist: "distinct (streams s v)"
    and nts: "\<forall>a\<in>set (streams s v). kind (elems s a) = Note \<or> kind (elems s a) = Chord"
    and nn: "\<forall>a\<in>set (streams s v). \<forall>j k. 0 \<le> weightOf w j k (elems s a)"
    and t1: "t \<le> 1"
    and cont: "contiguousFrom (elems s) t0 (streams s v)" and t0: "0 \<le> t0"
  shows "sumQL (elems s') (streams s' v') = highestTime (elems s) (streams s v)"
proof -
  from reduceNotes_Inr [OF r] obtain d where
    d: "computeMeasureChordWeights (elems s) (streams s v) w = Inr d" and v: "v' = v"
    and c: "if maxNChords slot d n = [] then s' = replaceByRest s v
      else \<exists>h kept. sweep (trimmedMaxChords d (maxNChords slot d n) t) (elems s) (streams s v)
                       = Inr (h, kept)
             \<and> s' = s\<lparr>elems := evenChordLengths h kept, streams := (streams s)(v := kept)\<rparr>"
    by blast
  let ?maxN = "maxNChords slot d n"
  let ?t = "trimmedMaxChords d ?maxN t"
  show ?thesis
  proof (cases "?maxN = []")
    case True
    with c have "s' = replaceByRest s v" by simp
    then show ?thesis by (simp add: v replaceByRest_def Let_def newRest_def)
  next
    case False
    with c obtain h kept where sw: "sweep ?t (elems s) (streams s v) = Inr (h, kept)"
      and s': "s' = s\<lparr>elems := evenChordLengths h kept, streams := (streams s)(v := kept)\<rparr>"
      by auto
    from reduceNotes_keptPCs [OF r dist nts] d False
    have k: "keptPCs (elems s') (streams s' v) = set ?t" by auto
    have "nonnegDict d" using d nn by (rule computeWeights_nonneg)
    then have "0 \<le> dictGet d (hd ?maxN)" by (rule dictGet_nonneg)
    with False have "hd ?maxN \<in> set ?t" using t1 by (rule trimmed_hd)
    with k have "keptPCs (elems s') (streams s' v) \<noteq> {}" by auto
    then have "streams s' v \<noteq> []" by (auto simp add: keptPCs_def notesOf_def)
    with s' have kne: "kept \<noteq> []" by simp
    from sweep_result [OF sw dist] have "kept = keptOf (elems s) ?t None (streams s v)" by simp
    then have "set kept \<subseteq> set (streams s v)" by (auto dest: keptOf_subset)
    from dist have dk: "distinct kept"
      unfolding \<open>kept = keptOf (elems s) ?t None (streams s v)\<close> by (rule distinct_keptOf)
    from sweep_sum [OF sw dist cont t0 kne] have "sumQL h kept = t0 + sumQL (elems s) (streams s v)" .
    moreover from dk have "sumQL (evenChordLengths h kept) kept = sumQL h kept"
      by (rule evenChordLengths_sum)
    moreover from kne \<open>set kept \<subseteq> set (streams s v)\<close> have "streams s v \<noteq> []" by auto
    with highestTime_contiguous [OF cont t0]
    have "highestTime (elems s) (streams s v) = t0 + sumQL (elems s) (streams s v)" by simp
    ultimately show ?thesis using s' v by simp
  qed
qed

text \<open>
  C4 (as stated, refuted). A measure of four quarters with a chord of one quarter, a rest
  of one quarter and a chord of two quarters: both chords are kept with their lengths, the
  rest is no element of the stream of notes, and the lengths returned add up to three
  quarters.
\<close>

theorem C4_gap_counterexample:
  "returnedLength (reduceMeasureToNChords (\<lambda>_. 0) chordRestChord 0 3 (Some qlbsmpConsonance) (1 / 4))
     = Inr 3
   \<and> highestTime (elems chordRestChord) (streams chordRestChord 0) = 4"
  by code_simp

text \<open>
  C4 (amended). Let the notes of the measure be chords that follow one another without gap
  or overlap from a time \<open>t0 \<ge> 0\<close> on (a gap before the first one is allowed, rests between
  them are not), the weights not negative and \<open>trimBelow \<le> 1\<close>. Then the call returns, and
  the quarter lengths of the returned events add up, in exact arithmetic, to the end of the
  measure's last note; this is the measure's duration when no element of the measure ends
  later.
\<close>

theorem C4_duration_conserved:
  assumes dist: "distinct (streams s0 m)"
    and noNote: "\<forall>a\<in>set (streams s0 m). kind (elems s0 a) \<noteq> Note"
    and nonneg: "\<forall>a\<in>set (streams s0 m). \<forall>j k. 0 \<le> weightOf w j k (elems s0 a)"
    and t1: "t \<le> 1"
    and cont: "contiguousFrom (elems s0) t0 (notesOf (elems s0) (streams s0 m))"
    and t0: "0 \<le> t0"
  shows "\<exists>s' v. reduceMeasureToNChords slot s0 m n w t = Inr (s', v)
       \<and> sumQL (elems s') (streams s' v)
           = highestTime (elems s0) (notesOf (elems s0) (streams s0 m))
       \<and> ((\<forall>a\<in>set (streams s0 m). offset (elems s0 a) + quarterLength (elems s0 a)
               \<le> highestTime (elems s0) (notesOf (elems s0) (streams s0 m)))
            \<longrightarrow> sumQL (elems s') (streams s' v) = highestTime (elems s0) (streams s0 m))"
proof -
  obtain s v where mn: "measureNotes s0 m = (s, v)" by (cases "measureNotes s0 m") auto
  note view = measureNotes_view [OF mn dist]
  note facts = measureNotes_facts(1,2) [OF mn]
  have red: "reduceMeasureToNChords slot s0 m n w t = reduceNotes slot s v n w t"
    by (simp add: reduceMeasureToNChords_def mn)
  have nn: "\<forall>a\<in>set (streams s v). \<forall>j k. 0 \<le> weightOf w j k (elems s a)"
    using nonneg facts by (simp add: notesOf_def)
  from noNote facts have "\<forall>a\<in>set (streams s v). kind (elems s a) \<noteq> Note"
    by (simp add: notesOf_def)
  from computeWeights_total [OF this] obtain d
    where "computeMeasureChordWeights (elems s) (streams s v) w = Inr d" by blast
  from reduceNotes_total [OF this] obtain s' v' where r: "reduceNotes slot s v n w t = Inr (s', v')"
    by fastforce
  from cont facts have cont': "contiguousFrom (elems s) t0 (streams s v)" by simp
  from reduceNotes_sum [OF r view nn t1 cont' t0] facts
  have sum: "sumQL (elems s') (streams s' v')
      = highestTime (elems s0) (notesOf (elems s0) (streams s0 m))" by simp
  with highestTime_notesOf [of "streams s0 m" "elems s0"] r red show ?thesis by auto
qed

theorem C4_duration_conserved_witness:
  "distinct (streams testMeasureStream1 0) \<and> (1 / 4 :: rat) \<le> 1 \<and> (0::rat) \<le> 0
   \<and> contiguousFrom (elems testMeasureStream1) 0
        (notesOf (elems testMeasureStream1) (streams testMeasureStream1 0))
   \<and> returnedLength (reduceMeasureToNChords (\<lambda>_. 0) testMeasureStream1 0 3
        (Some qlbsmpConsonance) (1 / 4)) = Inr 4
   \<and> highestTime (elems testMeasureStream1) (streams testMeasureStream1 0) = 4"
proof -
  have d: "distinct (streams testMeasureStream1 0)" by code_simp
  have k: "\<forall>a\<in>set (streams testMeasureStream1 0). kind (elems testMeasureStream1 a) \<noteq> Note"
    by (auto simp add: testMeasureStream1_def storeOf_def chordOf_def otherElement_def)
  have n: "\<forall>a\<in>set (streams testMeasureStream1 0). \<forall>j k.
             0 \<le> weightOf (Some qlbsmpConsonance) j k (elems testMeasureStream1 a)"
    by (auto simp add: testMeasureStream1_def storeOf_def weightOf_def chordOf_def otherElement_def
        intro!: weights_nonneg(4))
  have t: "(1 / 4 :: rat) \<le> 1" by simp
  have z: "(0::rat) \<le> 0" by simp
  have c: "contiguousFrom (elems testMeasureStream1) 0
        (notesOf (elems testMeasureStream1) (streams testMeasureStream1 0))" by code_simp
  have h: "highestTime (elems testMeasureStream1)
        (notesOf (elems testMeasureStream1) (streams testMeasureStream1 0)) = 4" by code_simp
  have h': "highestTime (elems testMeasureStream1) (streams testMeasureStream1 0) = 4" by code_simp
  from C4_duration_conserved [OF d k n t c z, of "\<lambda>_. 0" 3] h
  have "returnedLength (reduceMeasureToNChords (\<lambda>_. 0) testMeasureStream1 0 3
        (Some qlbsmpConsonance) (1 / 4)) = Inr 4"
    by (auto simp add: returnedLength_def)
  with d t z c h' show ?thesis by simp
qed

subsection \<open>Removal of vertical dissonances\<close>

lemma removeAbove_filter:
  assumes "distinct tree" and "distinct ts" and "set ts \<subseteq> set tree"
    and "\<forall>t\<in>set ts. tsPitches t \<noteq> []"
  shows "removeAbove low tree ts
     = Inr (filter (\<lambda>t. t \<notin> set ts \<or> Min (set (tsPitches t)) = low) tree)"
  using assms
proof (induction ts arbitrary: tree)
  case Nil
  then show ?case by simp
next
  case (Cons t ts)
  from Cons.prems have tin: "t \<in> set tree" and tnot: "t \<notin> set ts" and dts: "distinct ts"
    and sub: "set ts \<subseteq> set tree" and ne: "tsPitches t \<noteq> []"
    and nes: "\<forall>t\<in>set ts. tsPitches t \<noteq> []" by auto
  show ?case
  proof (cases "Min (set (tsPitches t)) = low")
    case True
    from Cons.IH [OF Cons.prems(1) dts sub nes] True ne
    show ?thesis by (auto intro: filter_cong)
  next
    case False
    let ?tree = "remove1 t tree"
    from Cons.prems(1) have d: "distinct ?tree" by simp
    from sub tnot have sub': "set ts \<subseteq> set ?tree" using Cons.prems(1) by auto
    from Cons.prems(1) have r: "?tree = filter (\<lambda>u. u \<noteq> t) tree"
      by (auto simp add: distinct_remove1_removeAll removeAll_filter_not_eq intro: filter_cong)
    have "removeAbove low tree (t # ts) = removeAbove low ?tree ts"
      using False ne tin by (simp add: treeRemove_def)
    also have "\<dots> = Inr (filter (\<lambda>u. u \<notin> set ts \<or> Min (set (tsPitches u)) = low) ?tree)"
      by (rule Cons.IH [OF d dts sub' nes])
    also have "filter (\<lambda>u. u \<notin> set ts \<or> Min (set (tsPitches u)) = low) ?tree
        = filter (\<lambda>u. u \<notin> set (t # ts) \<or> Min (set (tsPitches u)) = low) tree"
      unfolding r using False by (auto intro: filter_cong)
    finally show ?thesis .
  qed
qed

lemma pitchSet_nonempty:
  assumes "t \<in> set (startTimespans v)" and "tsPitches t \<noteq> []"
  shows "pitchSet v \<noteq> []"
proof -
  from assms(2) obtain p where "p \<in> set (tsPitches t)" by (cases "tsPitches t") auto
  with assms(1) have "p \<in> set (pitchSet v)" by (auto simp add: pitchSet_def)
  then show ?thesis by auto
qed

lemma dissonanceBody_filter:
  assumes d: "distinct tree" and ne: "\<forall>t\<in>set tree. tsPitches t \<noteq> []"
    and off: "off \<in> startOffset ` set tree"
  shows "dissonanceBody c tree (getVerticalityAt tree off)
     = Inr (filter (\<lambda>t. startOffset t \<noteq> off \<or> survives c (getVerticalityAt tree off) t) tree)"
proof -
  let ?v = "getVerticalityAt tree off"
  have st: "startTimespans ?v = filter (\<lambda>t. startOffset t = off) tree"
    by (simp add: getVerticalityAt_def)
  show ?thesis
  proof (cases "c (pitchSet ?v)")
    case True
    then show ?thesis by (simp add: dissonanceBody_def survives_def)
  next
    case False
    from off obtain t where "t \<in> set tree" "startOffset t = off" by auto
    with st ne have "t \<in> set (startTimespans ?v)" "tsPitches t \<noteq> []" by simp_all
    then have pne: "pitchSet ?v \<noteq> []" by (rule pitchSet_nonempty)
    have "removeAbove (Min (set (pitchSet ?v))) tree (startTimespans ?v)
       = Inr (filter (\<lambda>t. t \<notin> set (startTimespans ?v)
                \<or> Min (set (tsPitches t)) = Min (set (pitchSet ?v))) tree)"
      using d ne by (intro removeAbove_filter) (auto simp add: st)
    also have "filter (\<lambda>t. t \<notin> set (startTimespans ?v)
                \<or> Min (set (tsPitches t)) = Min (set (pitchSet ?v))) tree
        = filter (\<lambda>t. startOffset t \<noteq> off \<or> survives c ?v t) tree"
      using False by (auto simp add: st survives_def intro: filter_cong)
    finally show ?thesis using False pne by (simp add: dissonanceBody_def)
  qed
qed

lemma fold_min_le: "\<forall>y\<in>set (x # xs). fold min xs (x::rat) \<le> y"
proof (induction xs arbitrary: x)
  case Nil
  then show ?case by simp
next
  case (Cons z zs)
  from Cons.IH [of "min z x"] show ?case by (auto simp add: min_def split: if_splits)
qed

lemma getStartOffsetAfter_least:
  assumes "getStartOffsetAfter tree off = Some off'" and "t \<in> set tree" and "off < startOffset t"
  shows "off' \<le> startOffset t"
proof -
  from assms(1) obtain x xs where f: "filter (\<lambda>x. off < x) (map startOffset tree) = x # xs"
    and o: "off' = fold min xs x"
    by (auto simp add: getStartOffsetAfter_def split: list.splits)
  from assms(2,3) have "startOffset t \<in> set (filter (\<lambda>x. off < x) (map startOffset tree))" by auto
  with f have "startOffset t \<in> set (x # xs)" by simp
  with fold_min_le [of x xs] o show ?thesis by blast
qed

lemma getStartOffsetAfter_None:
  assumes "getStartOffsetAfter tree off = None" and "t \<in> set tree"
  shows "\<not> off < startOffset t"
proof
  assume "off < startOffset t"
  with assms(2) have "startOffset t \<in> set (filter (\<lambda>x. off < x) (map startOffset tree))" by auto
  moreover from assms(1) have "filter (\<lambda>x. off < x) (map startOffset tree) = []"
    by (simp add: getStartOffsetAfter_def split: list.splits)
  ultimately show False by simp
qed

lemma liveTree_all:
  "\<forall>t\<in>set T. startOffset t < off \<longrightarrow> t \<in> set F \<Longrightarrow> liveTree T F off = T"
  by (simp add: liveTree_def)

lemma liveTree_step:
  assumes T1: "T1 = filter (\<lambda>t. startOffset t \<noteq> off \<or> Q t) T"
    and F: "set F \<subseteq> set T1" and s: "off < s"
  shows "liveTree T1 F s = liveTree T F s"
proof -
  have "liveTree T1 F s
      = filter (\<lambda>t. (startOffset t \<noteq> off \<or> Q t) \<and> (startOffset t < s \<longrightarrow> t \<in> set F)) T"
    by (simp add: liveTree_def T1 conj_commute)
  also have "\<dots> = filter (\<lambda>t. startOffset t < s \<longrightarrow> t \<in> set F) T"
  proof (rule filter_cong [OF refl])
    fix t assume "t \<in> set T"
    show "((startOffset t \<noteq> off \<or> Q t) \<and> (startOffset t < s \<longrightarrow> t \<in> set F))
        = (startOffset t < s \<longrightarrow> t \<in> set F)"
    proof (cases "startOffset t = off")
      case True
      with s F T1 show ?thesis by auto
    next
      case False
      then show ?thesis by simp
    qed
  qed
  finally show ?thesis by (simp add: liveTree_def)
qed

lemma dissonanceLoop_filter:
  "distinct T \<Longrightarrow> \<forall>t\<in>set T. tsPitches t \<noteq> [] \<Longrightarrow> off \<in> startOffset ` set T \<Longrightarrow>
   \<exists>F. dissonanceLoop c T off = Inr F
     \<and> F = filter (\<lambda>t. startOffset t < off
               \<or> survives c (getVerticalityAt (liveTree T F (startOffset t)) (startOffset t)) t) T"
proof (induction c T off rule: dissonanceLoop.induct)
  case (1 c T off)
  define B where "B = (\<lambda>t. startOffset t \<noteq> off \<or> survives c (getVerticalityAt T off) t)"
  define T1 where "T1 = filter B T"
  have body: "dissonanceBody c T (getVerticalityAt T off) = Inr T1"
    unfolding T1_def B_def using "1.prems" by (rule dissonanceBody_filter)
  have T1in: "t \<in> set T1 \<longleftrightarrow> t \<in> set T \<and> B t" for t by (simp add: T1_def)
  show ?case
  proof (cases "getStartOffsetAfter T1 off")
    case None
    have loop: "dissonanceLoop c T off = Inr T1"
      by (subst dissonanceLoop.simps) (simp only: body sum.case None option.case)
    have "filter B T = filter (\<lambda>t. startOffset t < off
               \<or> survives c (getVerticalityAt (liveTree T T1 (startOffset t)) (startOffset t)) t) T"
    proof (rule filter_cong [OF refl])
      fix t assume t: "t \<in> set T"
      show "B t
          = (startOffset t < off
               \<or> survives c (getVerticalityAt (liveTree T T1 (startOffset t)) (startOffset t)) t)"
      proof (cases "startOffset t = off")
        case True
        have "liveTree T T1 off = T"
        proof (rule liveTree_all, intro ballI impI)
          fix u assume "u \<in> set T" "startOffset u < off"
          then show "u \<in> set T1" by (simp add: T1in B_def)
        qed
        with True show ?thesis by (simp add: B_def)
      next
        case False
        have "\<not> off < startOffset t"
        proof
          assume "off < startOffset t"
          moreover from t False have "t \<in> set T1" by (simp add: T1in B_def)
          ultimately show False using getStartOffsetAfter_None [OF None] by blast
        qed
        with False show ?thesis by (auto simp add: B_def)
      qed
    qed
    then have "T1 = filter (\<lambda>t. startOffset t < off
               \<or> survives c (getVerticalityAt (liveTree T T1 (startOffset t)) (startOffset t)) t) T"
      by (simp only: T1_def [symmetric])
    with loop show ?thesis by blast
  next
    case (Some off')
    have d1: "distinct T1" using "1.prems"(1) by (simp add: T1_def)
    have ne1: "\<forall>t\<in>set T1. tsPitches t \<noteq> []" using "1.prems"(2) by (simp add: T1in)
    have o1: "off' \<in> startOffset ` set T1" using Some by (rule getStartOffsetAfter_Some(2))
    have lt: "off < off'" using Some by (rule getStartOffsetAfter_Some(1))
    from "1.IH" [OF body Some d1 ne1 o1] obtain F where
      F: "dissonanceLoop c T1 off' = Inr F"
      and Feq: "F = filter (\<lambda>t. startOffset t < off'
               \<or> survives c (getVerticalityAt (liveTree T1 F (startOffset t)) (startOffset t)) t) T1"
      by blast
    define P1 where "P1 = (\<lambda>t. startOffset t < off'
               \<or> survives c (getVerticalityAt (liveTree T1 F (startOffset t)) (startOffset t)) t)"
    from Feq have Feq': "F = filter P1 T1" by (simp only: P1_def)
    have Fin: "t \<in> set F \<longleftrightarrow> t \<in> set T \<and> B t \<and> P1 t" for t
      by (subst Feq') (auto simp add: T1in)
    have loop: "dissonanceLoop c T off = Inr F"
      by (subst dissonanceLoop.simps) (simp only: body sum.case Some option.case F)
    have sub: "set F \<subseteq> set T1" by (subst Feq') simp
    have early: "\<forall>t\<in>set T. startOffset t < off \<longrightarrow> t \<in> set F"
    proof (intro ballI impI)
      fix t assume t: "t \<in> set T" and b: "startOffset t < off"
      from b lt have "startOffset t < off'" by simp
      with t b show "t \<in> set F" by (simp add: Fin B_def P1_def)
    qed
    have "filter (\<lambda>t. B t \<and> P1 t) T = filter (\<lambda>t. startOffset t < off
               \<or> survives c (getVerticalityAt (liveTree T F (startOffset t)) (startOffset t)) t) T"
    proof (rule filter_cong [OF refl])
      fix t assume t: "t \<in> set T"
      consider (before) "startOffset t < off" | (at) "startOffset t = off" | (after) "off < startOffset t"
        by (cases "startOffset t" off rule: linorder_cases) auto
      then show "(B t \<and> P1 t)
          = (startOffset t < off
               \<or> survives c (getVerticalityAt (liveTree T F (startOffset t)) (startOffset t)) t)"
      proof cases
        case before
        with lt show ?thesis by (auto simp add: B_def P1_def)
      next
        case at
        have "liveTree T F off = T" using early by (rule liveTree_all)
        with at lt show ?thesis by (simp add: B_def P1_def)
      next
        case after
        with t have "t \<in> set T1" by (simp add: T1in B_def)
        from getStartOffsetAfter_least [OF Some this after] have ge: "\<not> startOffset t < off'" by simp
        have "T1 = filter (\<lambda>t. startOffset t \<noteq> off \<or> survives c (getVerticalityAt T off) t) T"
          by (simp add: T1_def B_def)
        then have "liveTree T1 F (startOffset t) = liveTree T F (startOffset t)"
          using sub after by (rule liveTree_step)
        with after ge show ?thesis by (auto simp add: B_def P1_def)
      qed
    qed
    moreover have "F = filter (\<lambda>t. B t \<and> P1 t) T"
      by (subst Feq') (simp add: T1_def)
    ultimately have "F = filter (\<lambda>t. startOffset t < off
               \<or> survives c (getVerticalityAt (liveTree T F (startOffset t)) (startOffset t)) t) T"
      by (rule trans [rotated])
    with loop show ?thesis by blast
  qed
qed

lemma earliestStartOffset_Some:
  assumes "earliestStartOffset tree = Some off"
  shows "off \<in> startOffset ` set tree" and "\<forall>t\<in>set tree. \<not> startOffset t < off"
proof -
  from assms obtain x xs where m: "map startOffset tree = x # xs" and o: "off = fold min xs x"
    by (auto simp add: earliestStartOffset_def split: list.splits)
  from fold_min_in [of xs x] o m have "off \<in> set (map startOffset tree)" by simp
  then show "off \<in> startOffset ` set tree" by simp
  show "\<forall>t\<in>set tree. \<not> startOffset t < off"
  proof
    fix t assume "t \<in> set tree"
    then have "startOffset t \<in> set (map startOffset tree)" by simp
    with m have "startOffset t \<in> set (x # xs)" by simp
    with fold_min_le [of x xs] o have "off \<le> startOffset t" by blast
    then show "\<not> startOffset t < off" by simp
  qed
qed

text \<open>
  C2. For a tree that holds each timespan once and no timespan without pitches,
  \<open>removeVerticalDissonances\<close> returns, and the tree it leaves is the given tree without
  exactly the timespans that begin at a verticality which is not consonant and whose lowest
  pitch differs from the lowest pitch of the verticality's pitch set: timespans with the
  lowest pitch and all timespans that begin at a consonant verticality stay. A verticality
  is taken from the tree as it is when the loop reaches its offset, that is, from the given
  tree without the timespans removed at earlier offsets (\<open>liveTree\<close>).
\<close>

theorem C2_dissonances_removed:
  assumes "distinct tree" and "\<forall>t\<in>set tree. tsPitches t \<noteq> []"
  shows "\<exists>final. removeVerticalDissonances isConsonant tree = Inr final
     \<and> final = filter (\<lambda>t. survives isConsonant
                   (getVerticalityAt (liveTree tree final (startOffset t)) (startOffset t)) t) tree"
proof (cases "earliestStartOffset tree")
  case None
  then have "tree = []" by (simp add: earliestStartOffset_def split: list.splits)
  with None show ?thesis by (simp add: removeVerticalDissonances_def)
next
  case (Some off)
  note e = earliestStartOffset_Some [OF Some]
  from dissonanceLoop_filter [OF assms e(1), of isConsonant] obtain F where
    l: "dissonanceLoop isConsonant tree off = Inr F"
    and F: "F = filter (\<lambda>t. startOffset t < off
               \<or> survives isConsonant (getVerticalityAt (liveTree tree F (startOffset t)) (startOffset t)) t) tree"
    by blast
  have "filter (\<lambda>t. startOffset t < off
               \<or> survives isConsonant (getVerticalityAt (liveTree tree F (startOffset t)) (startOffset t)) t) tree
      = filter (\<lambda>t. survives isConsonant
                   (getVerticalityAt (liveTree tree F (startOffset t)) (startOffset t)) t) tree"
    using e(2) by (intro filter_cong [OF refl]) simp
  with F have "F = filter (\<lambda>t. survives isConsonant
                   (getVerticalityAt (liveTree tree F (startOffset t)) (startOffset t)) t) tree"
    by (rule trans)
  with l Some show ?thesis by (simp add: removeVerticalDissonances_def)
qed

theorem C2_dissonances_removed_witness:
  "distinct dissonantTree
   \<and> (\<exists>final. removeVerticalDissonances consonantIntervals dissonantTree = Inr final
        \<and> final = filter (\<lambda>t. survives consonantIntervals
                   (getVerticalityAt (liveTree dissonantTree final (startOffset t)) (startOffset t)) t)
                    dissonantTree
        \<and> final = [timespanOf 0 4 0 [36], timespanOf 2 4 2 [64]])"
proof -
  have d: "distinct dissonantTree" by code_simp
  have n: "\<forall>t\<in>set dissonantTree. tsPitches t \<noteq> []"
    by (simp add: dissonantTree_def timespanOf_def)
  have v: "removeVerticalDissonances consonantIntervals dissonantTree
      = Inr [timespanOf 0 4 0 [36], timespanOf 2 4 2 [64]]" by code_simp
  from C2_dissonances_removed [OF d n, of consonantIntervals] v d show ?thesis by auto
qed

subsection \<open>Removal of short timespans\<close>

lemma groupBody_removals:
  "groupBody slot (thr, rem) key grp
     = (if wholeGroup (key, grp) then snd (bestOf slot grp) else thr,
        rem @ removalsOf slot (key, grp))"
  by (simp add: groupBody_def wholeGroup_def removalsOf_def)

lemma groupsBy_Nil_iff: "groupsBy k xs = [] \<longleftrightarrow> xs = []"
  by (cases xs) simp_all

lemma groupLoop_groups:
  assumes "\<forall>g\<in>set (butlast (groupsBy (procedure bassAt tree thr) (x # xs))). \<not> wholeGroup g"
  shows "snd (groupLoop bassAt slot tree (thr, rem) (procedure bassAt tree thr x) x xs)
           = rem @ concat (map (removalsOf slot) (groupsBy (procedure bassAt tree thr) (x # xs)))
       \<and> (\<not> wholeGroup (last (groupsBy (procedure bassAt tree thr) (x # xs)))
            \<longrightarrow> fst (groupLoop bassAt slot tree (thr, rem) (procedure bassAt tree thr x) x xs) = thr)"
  using assms
proof (induction "length xs" arbitrary: x xs rem rule: less_induct)
  case less
  define k where "k = procedure bassAt tree thr"
  define grp where "grp = x # takeWhile (\<lambda>y. k y = k x) xs"
  define rest where "rest = dropWhile (\<lambda>y. k y = k x) xs"
  have G: "groupsBy k (x # xs) = (k x, grp) # groupsBy k rest"
    by (simp add: grp_def rest_def)
  have L: "groupLoop bassAt slot tree (thr, rem) (k x) x xs
      = (case rest of [] \<Rightarrow> groupBody slot (thr, rem) (k x) grp
         | y # ys \<Rightarrow> groupLoop bassAt slot tree (groupBody slot (thr, rem) (k x) grp) (k y) y ys)"
    unfolding grp_def rest_def k_def by (subst groupLoop.simps) (simp add: Let_def)
  show ?case
  proof (cases rest)
    case Nil
    with G L show ?thesis
      unfolding k_def [symmetric] by (simp add: groupBody_removals)
  next
    case (Cons y ys)
    then have ne: "groupsBy k rest \<noteq> []" by simp
    from less.prems G ne have nw: "\<not> wholeGroup (k x, grp)"
      and rest: "\<forall>g\<in>set (butlast (groupsBy k (y # ys))). \<not> wholeGroup g"
      unfolding k_def [symmetric] using Cons by auto
    from Cons have "length ys < length xs"
      unfolding rest_def by (rule dropWhile_shorter)
    from less.hyps [OF this, of y "rem @ removalsOf slot (k x, grp)"] rest
    have IH: "snd (groupLoop bassAt slot tree (thr, rem @ removalsOf slot (k x, grp)) (k y) y ys)
           = (rem @ removalsOf slot (k x, grp)) @ concat (map (removalsOf slot) (groupsBy k (y # ys)))
       \<and> (\<not> wholeGroup (last (groupsBy k (y # ys)))
            \<longrightarrow> fst (groupLoop bassAt slot tree (thr, rem @ removalsOf slot (k x, grp)) (k y) y ys) = thr)"
      unfolding k_def [symmetric] by blast
    from L Cons nw have "groupLoop bassAt slot tree (thr, rem) (k x) x xs
       = groupLoop bassAt slot tree (thr, rem @ removalsOf slot (k x, grp)) (k y) y ys"
      by (simp add: groupBody_removals)
    with IH G ne Cons show ?thesis
      unfolding k_def [symmetric] by simp
  qed
qed

lemma partBody_groups:
  assumes "\<forall>g\<in>set (butlast (groupsBy (procedure bassAt tree thr) (snd ps))). \<not> wholeGroup g"
  shows "snd (partBody bassAt slot tree (thr, rem) ps)
           = rem @ concat (map (removalsOf slot) (groupsBy (procedure bassAt tree thr) (snd ps)))
       \<and> (groupsBy (procedure bassAt tree thr) (snd ps) \<noteq> []
            \<longrightarrow> \<not> wholeGroup (last (groupsBy (procedure bassAt tree thr) (snd ps)))
            \<longrightarrow> fst (partBody bassAt slot tree (thr, rem) ps) = thr)"
proof (cases "snd ps")
  case Nil
  then show ?thesis by (simp add: partBody_def)
next
  case (Cons x xs)
  with groupLoop_groups [of bassAt tree thr x xs slot rem] assms show ?thesis
    by (simp add: partBody_def)
qed

lemma foldl_partBody_empty:
  "\<forall>ps\<in>set pss. snd ps = [] \<Longrightarrow> foldl (partBody bassAt slot tree) state pss = state"
  by (induction pss arbitrary: state) (simp_all add: partBody_def)

lemma foldl_partBody_groups:
  assumes "\<forall>g\<in>set (butlast (concat (map (\<lambda>ps. groupsBy (procedure bassAt tree thr) (snd ps)) pss))).
             \<not> wholeGroup g"
  shows "snd (foldl (partBody bassAt slot tree) (thr, rem) pss)
           = rem @ concat (map (removalsOf slot)
                       (concat (map (\<lambda>ps. groupsBy (procedure bassAt tree thr) (snd ps)) pss)))"
  using assms
proof (induction pss arbitrary: rem)
  case Nil
  then show ?case by simp
next
  case (Cons ps pss)
  define k where "k = procedure bassAt tree thr"
  define Gp where "Gp = groupsBy k (snd ps)"
  define Gr where "Gr = concat (map (\<lambda>ps. groupsBy k (snd ps)) pss)"
  note prem = Cons.prems [unfolded k_def [symmetric], simplified, folded Gp_def Gr_def]
  show ?case
  proof (cases "Gr = []")
    case True
    then have "\<forall>ps\<in>set pss. snd ps = []"
      by (auto simp add: Gr_def groupsBy_Nil_iff)
    then have id: "\<And>state. foldl (partBody bassAt slot tree) state pss = state"
      by (rule foldl_partBody_empty)
    from prem True have "\<forall>g\<in>set (butlast Gp). \<not> wholeGroup g" by simp
    from partBody_groups [of bassAt tree thr ps slot rem] this
    have "snd (partBody bassAt slot tree (thr, rem) ps) = rem @ concat (map (removalsOf slot) Gp)"
      unfolding k_def [symmetric] Gp_def by blast
    with id True show ?thesis
      unfolding k_def [symmetric] by (simp add: Gp_def [symmetric] Gr_def [symmetric])
  next
    case False
    with prem have a: "\<forall>g\<in>set Gp. \<not> wholeGroup g" and r: "\<forall>g\<in>set (butlast Gr). \<not> wholeGroup g"
      by (auto simp add: butlast_append)
    from a have b: "\<forall>g\<in>set (butlast Gp). \<not> wholeGroup g" by (auto dest: in_set_butlastD)
    from a have l: "Gp \<noteq> [] \<longrightarrow> \<not> wholeGroup (last Gp)" by simp
    from partBody_groups [of bassAt tree thr ps slot rem] b l
    have s: "snd (partBody bassAt slot tree (thr, rem) ps) = rem @ concat (map (removalsOf slot) Gp)"
      and f: "Gp \<noteq> [] \<longrightarrow> fst (partBody bassAt slot tree (thr, rem) ps) = thr"
      unfolding k_def [symmetric] Gp_def by blast+
    have f': "fst (partBody bassAt slot tree (thr, rem) ps) = thr"
    proof (cases "Gp = []")
      case True
      then have "snd ps = []" by (simp add: Gp_def groupsBy_Nil_iff)
      then show ?thesis by (simp add: partBody_def)
    next
      case False
      with f show ?thesis by simp
    qed
    from s f' have st: "partBody bassAt slot tree (thr, rem) ps
        = (thr, rem @ concat (map (removalsOf slot) Gp))"
      by (simp add: prod_eq_iff)
    from Cons.IH [of "rem @ concat (map (removalsOf slot) Gp)"] r
    have "snd (foldl (partBody bassAt slot tree) (thr, rem @ concat (map (removalsOf slot) Gp)) pss)
        = (rem @ concat (map (removalsOf slot) Gp)) @ concat (map (removalsOf slot) Gr)"
      unfolding k_def [symmetric] Gr_def by blast
    with st show ?thesis
      unfolding k_def [symmetric] by (simp add: Gp_def [symmetric] Gr_def [symmetric])
  qed
qed


lemma groupsBy_concat: "concat (map snd (groupsBy k xs)) = xs"
  by (induction k xs rule: groupsBy.induct) simp_all

lemma groupsBy_key: "g \<in> set (groupsBy k xs) \<Longrightarrow> y \<in> set (snd g) \<Longrightarrow> k y = fst g"
  by (induction k xs rule: groupsBy.induct) (auto dest: set_takeWhileD)

lemma removalsOf_subset: "set (removalsOf slot g) \<subseteq> set (snd g)"
  by (auto simp add: removalsOf_def)

lemma removalsOf_distinct: "distinct (snd g) \<Longrightarrow> distinct (removalsOf slot g)"
  by (simp add: removalsOf_def)

lemma removals_subset:
  "set (concat (map (removalsOf slot) G)) \<subseteq> set (concat (map snd G))"
proof (induction G)
  case Nil
  then show ?case by simp
next
  case (Cons g G)
  with removalsOf_subset [of slot g] show ?case by auto
qed

lemma removals_distinct:
  "distinct (concat (map snd G)) \<Longrightarrow> distinct (concat (map (removalsOf slot) G))"
proof (induction G)
  case Nil
  then show ?case by simp
next
  case (Cons g G)
  with removals_subset [of slot G] removalsOf_subset [of slot g] show ?case
    by (auto simp add: removalsOf_distinct)
qed

lemma partwise_distinct:
  "distinct tree \<Longrightarrow> distinct ps
   \<Longrightarrow> distinct (concat (map (\<lambda>p. sort_key startOffset (filter (\<lambda>t. tsPart t = p) tree)) ps))"
  by (induction ps) auto

lemma allGroups_members:
  "concat (map snd (allGroups bassAt tree thr)) = concat (map snd (toPartwiseOffsetTrees tree))"
proof -
  have "concat (map snd (concat (map (\<lambda>ps. groupsBy k (snd ps)) pss))) = concat (map snd pss)"
    for k :: "timespan \<Rightarrow> groupKey" and pss :: "(nat \<times> timespan list) list"
    by (induction pss) (simp_all add: groupsBy_concat)
  then show ?thesis by (simp add: allGroups_def)
qed

lemma toPartwiseOffsetTrees_distinct:
  "distinct tree \<Longrightarrow> distinct (concat (map snd (toPartwiseOffsetTrees tree)))"
  using partwise_distinct [of tree "remdups (map tsPart tree)"]
  by (simp add: toPartwiseOffsetTrees_def comp_def)

lemma toPartwiseOffsetTrees_set:
  "set (concat (map snd (toPartwiseOffsetTrees tree))) = set tree"
  by (auto simp add: toPartwiseOffsetTrees_def)

lemma treeRemoveAll_filter:
  "distinct tree \<Longrightarrow> distinct ts \<Longrightarrow> set ts \<subseteq> set tree
   \<Longrightarrow> treeRemoveAll ts tree = Inr (filter (\<lambda>t. t \<notin> set ts) tree)"
proof (induction ts arbitrary: tree)
  case Nil
  then show ?case by simp
next
  case (Cons t ts)
  have r: "remove1 t tree = filter (\<lambda>u. u \<noteq> t) tree"
    using Cons.prems(1)
    by (auto simp add: distinct_remove1_removeAll removeAll_filter_not_eq intro: filter_cong)
  from Cons.prems have "treeRemoveAll ts (remove1 t tree)
      = Inr (filter (\<lambda>u. u \<notin> set ts) (remove1 t tree))"
    by (intro Cons.IH) auto
  with Cons.prems show ?case
    by (auto simp add: treeRemove_def r intro: filter_cong)
qed

lemma allGroups_key:
  assumes "g \<in> set (allGroups bassAt tree thr)" and "t \<in> set (snd g)"
  shows "fst (snd (fst g)) = (duration t < thr)"
proof -
  from assms(1) obtain ps :: "nat \<times> timespan list"
    where "g \<in> set (groupsBy (procedure bassAt tree thr) (snd ps))"
    by (auto simp add: allGroups_def)
  from groupsBy_key [OF this assms(2)] have "procedure bassAt tree thr t = fst g" .
  then have "fst (snd (procedure bassAt tree thr t)) = fst (snd (fst g))" by simp
  then show ?thesis by (simp add: procedure_def Let_def)
qed

lemma dictGet_dictAdd: "dictGet (dictAdd d p w) k = dictGet d k + (if k = p then w else 0)"
  by (induction d p w rule: dictAdd.induct) (auto simp add: dictGet_def)

lemma counter_fold:
  "dictGet (fold (\<lambda>t counter. dictAdd counter (tsPitches t) (duration t)) grp d) k
     = dictGet d k + cumulativeDuration grp k
   \<and> fst ` set (fold (\<lambda>t counter. dictAdd counter (tsPitches t) (duration t)) grp d)
     = fst ` set d \<union> tsPitches ` set grp
   \<and> (distinct (map fst d)
        \<longrightarrow> distinct (map fst (fold (\<lambda>t counter. dictAdd counter (tsPitches t) (duration t)) grp d)))"
proof (induction grp arbitrary: d)
  case Nil
  then show ?case by (simp add: cumulativeDuration_def)
next
  case (Cons t grp)
  have c: "cumulativeDuration (t # grp) k
      = (if k = tsPitches t then duration t else 0) + cumulativeDuration grp k"
    by (auto simp add: cumulativeDuration_def)
  have dk: "distinct (map fst d) \<Longrightarrow> distinct (map fst (dictAdd d (tsPitches t) (duration t)))"
    by (induction d "tsPitches t" "duration t" rule: dictAdd.induct)
      (auto simp add: dictAdd_set_keys)
  from Cons [of "dictAdd d (tsPitches t) (duration t)"] dk show ?case
    by (auto simp add: dictGet_dictAdd c dictAdd_set_keys)
qed

lemma dictGet_distinct: "distinct (map fst d) \<Longrightarrow> kv \<in> set d \<Longrightarrow> dictGet d (fst kv) = snd kv"
  by (cases kv) (simp add: dictGet_def)

lemma sort_key_Nil_iff: "sort_key f xs = [] \<longleftrightarrow> xs = []"
  by (metis length_sort length_0_conv)

lemma hd_sort_key_le:
  fixes f :: "'a \<Rightarrow> 'b::linorder"
  assumes "x \<in> set xs"
  shows "f (hd (sort_key f xs)) \<le> f x"
proof -
  from assms have ne: "sort_key f xs \<noteq> []" by (auto simp add: sort_key_Nil_iff)
  have s: "sorted (map f (sort_key f xs))" by simp
  from assms have "x \<in> set (sort_key f xs)" by simp
  with ne s show ?thesis
    by (cases "sort_key f xs") auto
qed

lemma hd_filter_sort_key:
  fixes f :: "'a \<Rightarrow> 'b::linorder"
  assumes "xs \<noteq> []"
  shows "hd (sort_key f xs) = hd (filter (\<lambda>y. f y = f (hd (sort_key f xs))) xs)"
proof -
  let ?b = "hd (sort_key f xs)"
  from assms have ne: "sort_key f xs \<noteq> []" by (simp add: sort_key_Nil_iff)
  then have "filter (\<lambda>y. f y = f ?b) (sort_key f xs) = ?b # filter (\<lambda>y. f y = f ?b) (tl (sort_key f xs))"
    by (cases "sort_key f xs") auto
  then have "hd (filter (\<lambda>y. f y = f ?b) (sort_key f xs)) = ?b" by simp
  then show ?thesis by (simp add: sort_key_stable)
qed

lemma bestOf_isBest:
  assumes "grp \<noteq> []"
  shows "isBest slot grp (fst (bestOf slot grp))"
    and "snd (bestOf slot grp) = cumulativeDuration grp (fst (bestOf slot grp))"
proof -
  define counter where
    "counter = fold (\<lambda>t counter. dictAdd counter (tsPitches t) (duration t)) grp []"
  define byslot where "byslot = sort_key (\<lambda>kv. slot (fst kv)) counter"
  define best where "best = bestOf slot grp"
  note cf = counter_fold [of grp "[]", folded counter_def]
  have get: "dictGet counter k = cumulativeDuration grp k" for k
    using cf [of k] by (simp add: dictGet_def)
  have keys: "fst ` set counter = tsPitches ` set grp" using cf [of undefined] by simp
  have dist: "distinct (map fst counter)" using cf [of undefined] by simp
  have val: "snd kv = cumulativeDuration grp (fst kv)" if "kv \<in> set counter" for kv
    using dictGet_distinct [OF dist that] get by simp
  from assms keys have cne: "counter \<noteq> []" by auto
  then have bne: "byslot \<noteq> []" by (simp add: byslot_def sort_key_Nil_iff)
  have b: "best = hd (sort_key (\<lambda>kv. - snd kv) byslot)"
    by (simp add: best_def bestOf_def mostCommon_def byslot_def counter_def)
  from bne have "best \<in> set (sort_key (\<lambda>kv. - snd kv) byslot)"
    unfolding b by (intro hd_in_set) (simp add: sort_key_Nil_iff)
  then have bin: "best \<in> set counter" by (simp add: byslot_def)
  have max: "snd kv \<le> snd best" if "kv \<in> set counter" for kv
  proof -
    from that have "kv \<in> set byslot" by (simp add: byslot_def)
    from hd_sort_key_le [OF this, of "\<lambda>kv. - snd kv"] show ?thesis by (simp add: b)
  qed
  have first: "best = hd (filter (\<lambda>kv. - snd kv = - snd best) byslot)"
    unfolding b using bne by (rule hd_filter_sort_key)
  have tie: "slot (fst best) \<le> slot (fst kv)" if kv: "kv \<in> set counter" and eq: "snd kv = snd best" for kv
  proof -
    define F where "F = filter (\<lambda>kv. - snd kv = - snd best) byslot"
    have srt: "sorted (map (\<lambda>kv. slot (fst kv)) F)"
      unfolding F_def byslot_def by (simp add: sorted_filter)
    from kv eq have in_F: "kv \<in> set F" by (simp add: F_def byslot_def)
    then obtain x rest where F: "F = x # rest" by (cases F) auto
    with first have x: "x = best" by (simp add: F_def)
    from srt F x have "\<forall>y\<in>set rest. slot (fst best) \<le> slot (fst y)" by simp
    with in_F F x show ?thesis by auto
  qed
  show "snd (bestOf slot grp) = cumulativeDuration grp (fst (bestOf slot grp))"
    using val [OF bin] by (simp add: best_def)
  have "isBest slot grp (fst best)"
    unfolding isBest_def
  proof (intro conjI ballI impI)
    from bin keys show "fst best \<in> tsPitches ` set grp" by force
  next
    fix p assume "p \<in> tsPitches ` set grp"
    with keys obtain kv where kv: "kv \<in> set counter" "fst kv = p" by force
    from max [OF kv(1)] val [OF kv(1)] val [OF bin] kv(2)
    show "cumulativeDuration grp p \<le> cumulativeDuration grp (fst best)" by simp
  next
    fix p assume "p \<in> tsPitches ` set grp"
      and e: "cumulativeDuration grp p = cumulativeDuration grp (fst best)"
    with keys obtain kv where kv: "kv \<in> set counter" "fst kv = p" by force
    from val [OF kv(1)] val [OF bin] kv(2) e have "snd kv = snd best" by simp
    from tie [OF kv(1) this] kv(2) show "slot (fst best) \<le> slot p" by simp
  qed
  then show "isBest slot grp (fst (bestOf slot grp))" by (simp add: best_def)
qed

lemma groupsBy_nonempty: "g \<in> set (groupsBy k xs) \<Longrightarrow> snd g \<noteq> []"
  by (induction k xs rule: groupsBy.induct) auto

lemma allGroups_nonempty: "g \<in> set (allGroups bassAt tree thr) \<Longrightarrow> snd g \<noteq> []"
  by (auto simp add: allGroups_def dest: groupsBy_nonempty)

lemma allGroups_unique:
  assumes d: "distinct tree"
    and g: "g \<in> set (allGroups bassAt tree thr)" and g': "g' \<in> set (allGroups bassAt tree thr)"
    and t: "t \<in> set (snd g)" and t': "t \<in> set (snd g')"
  shows "g = g'"
proof -
  have "distinct (concat (map snd (allGroups bassAt tree thr)))"
    using d by (simp add: allGroups_members toPartwiseOffsetTrees_distinct)
  then have "\<forall>ys zs. ys \<in> set (map snd (allGroups bassAt tree thr))
      \<and> zs \<in> set (map snd (allGroups bassAt tree thr)) \<and> ys \<noteq> zs \<longrightarrow> set ys \<inter> set zs = {}"
    unfolding distinct_concat_iff by blast
  with g g' t t' have s: "snd g = snd g'" by fastforce
  from g obtain ps :: "nat \<times> timespan list"
    where "g \<in> set (groupsBy (procedure bassAt tree thr) (snd ps))"
    by (auto simp add: allGroups_def)
  from groupsBy_key [OF this t] have k: "procedure bassAt tree thr t = fst g" .
  from g' obtain ps' :: "nat \<times> timespan list"
    where "g' \<in> set (groupsBy (procedure bassAt tree thr) (snd ps'))"
    by (auto simp add: allGroups_def)
  from groupsBy_key [OF this t'] have "procedure bassAt tree thr t = fst g'" .
  with k s show ?thesis by (simp add: prod_eq_iff)
qed

text \<open>
  C7 (as stated, refuted). The claim has every short timespan removed unless a run of
  short timespans exactly tiles a measure or a bass timespan. The two timespans of
  \<open>gapTree\<close> are shorter than the threshold of a half, and they leave the half of the
  measure between them empty; the pass removes neither: it only compares the start of the
  first timespan of the group and the stop of the last one with the bounds of the measure.
\<close>

theorem C7_gap_counterexample:
  "list_all (\<lambda>t. duration t < 1/2) gapTree
   \<and> stopOffset (gapTree ! 0) < startOffset (gapTree ! 1)
   \<and> removeShortTimespans bassTimespanAt (\<lambda>ps. 0) gapTree (1/2) = Inr gapTree"
  by code_simp

text \<open>
  The assignment of line 605 gives the threshold the cumulative duration of the most
  common pitches, and the keys of the following timespans are computed with it. In
  \<open>reassignedTree\<close> the first measure sets the threshold to three quarters, and the
  timespan of the third measure, of duration three fifths, is then removed as a short one
  although the pass was called with a threshold of a half.
\<close>

lemma removeShortTimespans_threshold_reassigned:
  "duration (timespanInMeasure 3 2 (13/5) [67]) = 3/5
   \<and> timespanInMeasure 3 2 (13/5) [67] \<in> set reassignedTree
   \<and> removeShortTimespans bassTimespanAt (\<lambda>ps. 0) reassignedTree (1/2)
       = Inr [timespanInMeasure 1 0 (1/4) [60], timespanInMeasure 1 (1/4) (1/2) [60],
              timespanInMeasure 1 (1/2) (3/4) [60], timespanInMeasure 2 1 (8/5) [64]]"
  by code_simp

text \<open>
  C7 (amended). The groups of the pass are, in each part, the maximal runs of consecutive
  timespans with the same measure number, the same shortness and the same bass timespan
  (none when the bass timespan is itself shorter than the threshold). A short group is
  treated as a whole measure when its first timespan starts and its last timespan stops at
  the bounds of the measure, or at the bounds of the bass timespan. Let the tree hold each
  timespan once, and let no group before the last one, in the order in which the pass
  visits them, be treated as a whole measure (then the threshold is the caller's whenever
  a key is computed). Then \<open>removeShortTimespans\<close> returns, and the tree it leaves is the
  given tree without these timespans: all members of a short group not treated as a whole
  measure, and, of a group treated as a whole measure, exactly the members whose pitches
  differ from a most common pitch set of the group, one of greatest cumulative duration
  and, among those, of the earliest place in the dictionary. No timespan at or above the
  threshold is removed, and every short timespan outside a group treated as a whole
  measure is.
\<close>

theorem C7_short_timespans_removed:
  assumes "distinct tree"
    and "\<forall>g\<in>set (butlast (allGroups bassAt tree threshold)). \<not> wholeGroup g"
  shows "\<exists>removed.
       removed = concat (map (removalsOf slot) (allGroups bassAt tree threshold))
     \<and> removeShortTimespans bassAt slot tree threshold
          = Inr (filter (\<lambda>t. t \<notin> set removed) tree)
     \<and> (\<forall>t\<in>set tree. threshold \<le> duration t \<longrightarrow> t \<notin> set removed)
     \<and> (\<forall>g\<in>set (allGroups bassAt tree threshold). \<forall>t\<in>set (snd g).
           duration t < threshold \<and> \<not> wholeGroup g \<longrightarrow> t \<in> set removed)
     \<and> (\<forall>g\<in>set (allGroups bassAt tree threshold). wholeGroup g \<longrightarrow>
           (\<exists>best. isBest slot (snd g) best
              \<and> (\<forall>t\<in>set (snd g). t \<in> set removed \<longleftrightarrow> tsPitches t \<noteq> best)))"
proof -
  define G where "G = allGroups bassAt tree threshold"
  define removed where "removed = concat (map (removalsOf slot) G)"
  have m: "concat (map snd G) = concat (map snd (toPartwiseOffsetTrees tree))"
    unfolding G_def by (rule allGroups_members)
  have d: "distinct removed"
    unfolding removed_def using assms(1)
    by (intro removals_distinct) (simp add: m toPartwiseOffsetTrees_distinct)
  have s: "set removed \<subseteq> set tree"
    unfolding removed_def using removals_subset [of slot G]
    by (simp only: m toPartwiseOffsetTrees_set)
  from foldl_partBody_groups [of bassAt tree threshold "toPartwiseOffsetTrees tree" slot "[]"] assms(2)
  have "snd (foldl (partBody bassAt slot tree) (threshold, []) (toPartwiseOffsetTrees tree)) = removed"
    by (simp add: allGroups_def removed_def G_def)
  then have r: "removeShortTimespans bassAt slot tree threshold
      = Inr (filter (\<lambda>t. t \<notin> set removed) tree)"
    using treeRemoveAll_filter [OF assms(1) d s] by (simp add: removeShortTimespans_def)
  have long: "t \<notin> set removed" if "threshold \<le> duration t" for t
  proof
    assume "t \<in> set removed"
    then obtain g where g: "g \<in> set G" and t: "t \<in> set (removalsOf slot g)"
      by (auto simp add: removed_def)
    from t have sh: "fst (snd (fst g))" by (auto simp add: removalsOf_def split: if_splits)
    from t removalsOf_subset have "t \<in> set (snd g)" by blast
    from allGroups_key [OF g [unfolded G_def] this] sh that show False by simp
  qed
  have short: "t \<in> set removed"
    if "g \<in> set G" "t \<in> set (snd g)" "duration t < threshold" "\<not> wholeGroup g" for g t
  proof -
    from allGroups_key [OF that(1) [unfolded G_def] that(2)] that(3) have "fst (snd (fst g))" by simp
    with that(4) have "removalsOf slot g = snd g" by (simp add: removalsOf_def wholeGroup_def)
    with that(2) have "t \<in> set (removalsOf slot g)" by simp
    with that(1) show ?thesis by (auto simp add: removed_def)
  qed
  have whole: "\<exists>best. isBest slot (snd g) best
              \<and> (\<forall>t\<in>set (snd g). t \<in> set removed \<longleftrightarrow> tsPitches t \<noteq> best)"
    if g: "g \<in> set G" and w: "wholeGroup g" for g
  proof -
    define best where "best = fst (bestOf slot (snd g))"
    from g have "snd g \<noteq> []" unfolding G_def by (rule allGroups_nonempty)
    then have b: "isBest slot (snd g) best" unfolding best_def by (rule bestOf_isBest(1))
    from w have ro: "removalsOf slot g = filter (\<lambda>t. tsPitches t \<noteq> best) (snd g)"
      by (simp add: removalsOf_def wholeGroup_def best_def)
    have "t \<in> set removed \<longleftrightarrow> tsPitches t \<noteq> best" if t: "t \<in> set (snd g)" for t
    proof
      assume "t \<in> set removed"
      then obtain g' where g': "g' \<in> set G" and t': "t \<in> set (removalsOf slot g')"
        by (auto simp add: removed_def)
      from t' removalsOf_subset have "t \<in> set (snd g')" by blast
      from allGroups_unique [OF assms(1) g [unfolded G_def] g' [unfolded G_def] t this]
      have "g = g'" .
      with t' ro show "tsPitches t \<noteq> best" by simp
    next
      assume "tsPitches t \<noteq> best"
      with t ro have "t \<in> set (removalsOf slot g)" by simp
      with g show "t \<in> set removed" by (auto simp add: removed_def)
    qed
    with b show ?thesis by blast
  qed
  from r long short whole show ?thesis
    unfolding removed_def G_def by blast
qed

theorem C7_short_timespans_removed_witness:
  "distinct shortsTree
   \<and> list_all (\<lambda>g. \<not> wholeGroup g) (butlast (allGroups bassTimespanAt shortsTree (1/2)))
   \<and> (\<exists>removed.
       removed = concat (map (removalsOf (\<lambda>ps. 0)) (allGroups bassTimespanAt shortsTree (1/2)))
     \<and> removeShortTimespans bassTimespanAt (\<lambda>ps. 0) shortsTree (1/2)
          = Inr (filter (\<lambda>t. t \<notin> set removed) shortsTree)
     \<and> removed = [timespanInMeasure 2 1 (5/4) [50], timespanInMeasure 3 (5/2) (11/4) [62]])"
proof -
  have d: "distinct shortsTree" by code_simp
  have h: "\<forall>g\<in>set (butlast (allGroups bassTimespanAt shortsTree (1/2))). \<not> wholeGroup g"
    by code_simp
  have v: "concat (map (removalsOf (\<lambda>ps. 0)) (allGroups bassTimespanAt shortsTree (1/2)))
      = [timespanInMeasure 2 1 (5/4) [50], timespanInMeasure 3 (5/2) (11/4) [62]]"
    by code_simp
  from C7_short_timespans_removed [OF d h, of "\<lambda>ps. 0"] v d h show ?thesis
    by (auto simp add: list_all_iff)
qed

end
